theory Spec2Isabelle
  imports Main "HOL-Library.Word"
begin

unbundle bit_operations_syntax

section \<open>Node.js Buffer primitives used by index.js\<close>

text \<open>
  A Buffer is a sequence of bytes. JavaScript offsets are Numbers; the offsets that occur
  in index.js are integers, possibly negative (\<open>-1\<close> is the not-found result of the
  searches), so they are modelled as \<open>int\<close>.
\<close>

type_synonym byte = "8 word"
type_synonym buffer = "byte list"

datatype error = RangeError | TypeError | ZlibError

text \<open>Sequencing of computations that may throw: the first exception wins.\<close>

definition bindE :: "error + 'a \<Rightarrow> ('a \<Rightarrow> error + 'b) \<Rightarrow> error + 'b" where
  "bindE m f = (case m of Inl e \<Rightarrow> Inl e | Inr v \<Rightarrow> f v)"

text \<open>
  \<open>buf.slice(start, end)\<close>: a negative offset counts from the end, and both offsets are
  clamped to \<open>[0, buf.length]\<close>; an end before the start gives the empty buffer.
\<close>

definition adjustOffset :: "int \<Rightarrow> nat \<Rightarrow> nat" where
  "adjustOffset offset len =
     (if offset < 0 then nat (max 0 (offset + int len)) else min (nat offset) len)"

definition slice :: "buffer \<Rightarrow> int \<Rightarrow> int \<Rightarrow> buffer" where
  "slice buf start end =
     (let s = adjustOffset start (length buf); e = adjustOffset end (length buf)
      in take (e - s) (drop s buf))"

text \<open>\<open>buf.slice(start)\<close>: the end defaults to \<open>buf.length\<close>.\<close>

definition slice_from :: "buffer \<Rightarrow> int \<Rightarrow> buffer" where
  "slice_from buf start = drop (adjustOffset start (length buf)) buf"

text \<open>
  The searches. \<open>occurs_here needle rest\<close> says that the (non-empty) needle starts at the
  head of \<open>rest\<close>. \<open>search_first\<close> scans forward and returns the position of the first
  occurrence, \<open>search_last\<close> scans the whole buffer and keeps the position of the last
  one; both return \<open>-1\<close> when there is none, as \<open>indexOf\<close> and \<open>lastIndexOf\<close> do.
\<close>

definition occurs_here :: "buffer \<Rightarrow> buffer \<Rightarrow> bool" where
  "occurs_here needle rest = (take (length needle) rest = needle)"

fun search_first :: "buffer \<Rightarrow> buffer \<Rightarrow> int \<Rightarrow> int" where
  "search_first needle [] i = -1"
| "search_first needle (b # bs) i =
     (if occurs_here needle (b # bs) then i else search_first needle bs (i + 1))"

fun search_last :: "buffer \<Rightarrow> buffer \<Rightarrow> int \<Rightarrow> int \<Rightarrow> int" where
  "search_last needle [] i found = found"
| "search_last needle (b # bs) i found =
     search_last needle bs (i + 1) (if occurs_here needle (b # bs) then i else found)"

text \<open>
  \<open>buf.indexOf(needle, byteOffset)\<close>: a negative \<open>byteOffset\<close> counts from the end of the
  buffer (and from the start when it reaches before it); a \<open>byteOffset\<close> past the end finds
  nothing. The needles of index.js are the fixed, non-empty markers.
\<close>

definition indexOf :: "buffer \<Rightarrow> buffer \<Rightarrow> int \<Rightarrow> int" where
  "indexOf buf needle byteOffset =
     (let n = int (length buf);
          start = (if byteOffset < 0 then (if 0 \<le> byteOffset + n then n + byteOffset else 0)
                   else byteOffset)
      in search_first needle (drop (nat start) buf) start)"

text \<open>\<open>buf.lastIndexOf(needle)\<close>: the whole buffer is searched.\<close>

definition lastIndexOf :: "buffer \<Rightarrow> buffer \<Rightarrow> int" where
  "lastIndexOf buf needle = search_last needle buf 0 (-1)"

text \<open>The reads throw a RangeError when the bytes read are not all inside the buffer.\<close>

definition in_range :: "buffer \<Rightarrow> int \<Rightarrow> nat \<Rightarrow> bool" where
  "in_range buf offset n = (0 \<le> offset \<and> nat offset + n \<le> length buf)"

definition le_uint :: "buffer \<Rightarrow> int" where
  "le_uint bs = foldr (\<lambda>b acc. uint b + 256 * acc) bs 0"

definition readUIntLE :: "nat \<Rightarrow> buffer \<Rightarrow> int \<Rightarrow> error + int" where
  "readUIntLE n buf offset =
     (if in_range buf offset n then Inr (le_uint (take n (drop (nat offset) buf)))
      else Inl RangeError)"

definition readIntLE :: "nat \<Rightarrow> buffer \<Rightarrow> int \<Rightarrow> error + int" where
  "readIntLE n buf offset =
     bindE (readUIntLE n buf offset)
       (\<lambda>v. Inr (if v < 2 ^ (8 * n - 1) then v else v - 2 ^ (8 * n)))"

definition readUInt8 :: "buffer \<Rightarrow> int \<Rightarrow> error + int" where
  "readUInt8 = readUIntLE 1"

definition readInt8 :: "buffer \<Rightarrow> int \<Rightarrow> error + int" where
  "readInt8 = readIntLE 1"

definition readUInt16LE :: "buffer \<Rightarrow> int \<Rightarrow> error + int" where
  "readUInt16LE = readUIntLE 2"

definition readInt16LE :: "buffer \<Rightarrow> int \<Rightarrow> error + int" where
  "readInt16LE = readIntLE 2"

definition readUInt32LE :: "buffer \<Rightarrow> int \<Rightarrow> error + int" where
  "readUInt32LE = readUIntLE 4"

definition readInt32LE :: "buffer \<Rightarrow> int \<Rightarrow> error + int" where
  "readInt32LE = readIntLE 4"

text \<open>
  \<open>intbuf.writeInt32LE(value)\<close> on a fresh 4-byte buffer: the four bytes of the value,
  least significant first; a value outside the signed 32-bit range throws.
\<close>

definition int32le :: "int \<Rightarrow> buffer" where
  "int32le v = [word_of_int v, word_of_int (v div 2 ^ 8),
                word_of_int (v div 2 ^ 16), word_of_int (v div 2 ^ 24)]"

definition writeInt32LE :: "int \<Rightarrow> error + buffer" where
  "writeInt32LE v =
     (if - (2 ^ 31) \<le> v \<and> v < 2 ^ 31 then Inr (int32le v) else Inl RangeError)"

text \<open>
  \<open>source.copy(target, targetStart)\<close> with \<open>0 \<le> targetStart\<close>: the bytes of the source
  overwrite the target from \<open>targetStart\<close> on, as many as fit; the target keeps its
  length. A negative \<open>targetStart\<close> throws.
\<close>

definition copy :: "buffer \<Rightarrow> buffer \<Rightarrow> int \<Rightarrow> error + buffer" where
  "copy source target targetStart =
     (if targetStart < 0 then Inl RangeError
      else let t = nat targetStart; n = min (length source) (length target - t)
           in Inr (take t target @ take n source @ drop (t + n) target))"

section \<open>The container codec: decompress and recompress\<close>

definition MOD_TITLE :: buffer where
  "MOD_TITLE = [0x4D, 0x4F, 0x44, 0x5F, 0x54, 0x49, 0x54, 0x4C, 0x45]"

definition zlib_start :: buffer where
  "zlib_start = [0x78, 0x9C]"

definition sync_flush :: buffer where
  "sync_flush = [0x00, 0x00, 0xFF, 0xFF]"

definition chunkSize :: nat where
  "chunkSize = 64 * 1024"

definition CHUNK_LENGTH :: nat where
  "CHUNK_LENGTH = 64 * 1024"

text \<open>
  The while loop of \<open>decompress\<close>: from \<open>pos\<close> on, keep \<open>chunkSize\<close> bytes and skip
  the 4 bytes after them.
\<close>

function decompress_chunks :: "buffer \<Rightarrow> nat \<Rightarrow> buffer list" where
  "decompress_chunks data pos =
     (if pos < length data
      then slice data (int pos) (int pos + int chunkSize)
           # decompress_chunks data (pos + chunkSize + 4)
      else [])"
  by pat_completeness auto
termination
  by (relation "measure (\<lambda>(data, pos). length data - pos)") auto

declare decompress_chunks.simps [simp del]

text \<open>
  zlib is an external library: \<open>decompress\<close> takes
  \<open>zlib.inflateSync(_, {finishFlush: Z_SYNC_FLUSH})\<close> as the parameter \<open>inflateSync\<close>
  and \<open>recompress\<close> takes \<open>zlib.deflateSync(_, {finishFlush: Z_SYNC_FLUSH})\<close> as
  \<open>deflateSync\<close>.
\<close>

text \<open>Lines 17-24: the buffer \<open>compressedData\<close> of a sliced span \<open>data\<close>.\<close>

definition decompress_compressedData :: "buffer \<Rightarrow> buffer" where
  "decompress_compressedData data = concat (decompress_chunks data 0)"

definition decompress :: "(buffer \<Rightarrow> error + buffer) \<Rightarrow> buffer \<Rightarrow> error + buffer" where
  "decompress inflateSync savefile =
     (let civsav = savefile;
          modindex = lastIndexOf civsav MOD_TITLE;
          bufstartindex = indexOf civsav zlib_start modindex;
          bufendindex = lastIndexOf civsav sync_flush;
          data = slice civsav bufstartindex bufendindex;
          compressedData = decompress_compressedData data
      in inflateSync compressedData)"

text \<open>
  The for loop of \<open>recompress\<close>: every chunk but the one at \<open>i = 0\<close> is preceded by
  the 4-byte buffer holding its length.
\<close>

function recompress_chunks :: "buffer \<Rightarrow> nat \<Rightarrow> error + buffer list" where
  "recompress_chunks compressedBuffer i =
     (if i < length compressedBuffer
      then let slice' = slice compressedBuffer (int i) (int i + int CHUNK_LENGTH)
           in bindE (if i \<noteq> 0
                     then bindE (writeInt32LE (int (length slice'))) (\<lambda>intbuf. Inr [intbuf])
                     else Inr [])
                (\<lambda>prefix. bindE (recompress_chunks compressedBuffer (i + CHUNK_LENGTH))
                   (\<lambda>chunks. Inr (prefix
                        @ [slice compressedBuffer (int i) (int i + int CHUNK_LENGTH)]
                        @ chunks)))
      else Inr [])"
  by pat_completeness auto
termination
  by (relation "measure (\<lambda>(b, i). length b - i)") (auto simp: CHUNK_LENGTH_def)

declare recompress_chunks.simps [simp del]

text \<open>Lines 41-55: the framed stream \<open>finalBuffer\<close> of a compressed buffer.\<close>

definition recompress_finalBuffer :: "buffer \<Rightarrow> error + buffer" where
  "recompress_finalBuffer compressedBuffer =
     bindE (recompress_chunks compressedBuffer 0) (\<lambda>chunks. Inr (concat chunks))"

text \<open>
  The framed stream as a function of the compressed buffer: the loop never fails, since
  the length of a chunk always fits the 4-byte field.
\<close>

definition framed :: "buffer \<Rightarrow> buffer" where
  "framed compressedBuffer =
     (case recompress_finalBuffer compressedBuffer of
        Inr finalBuffer \<Rightarrow> finalBuffer
      | Inl e \<Rightarrow> [])"

definition recompress :: "(buffer \<Rightarrow> buffer) \<Rightarrow> buffer \<Rightarrow> buffer \<Rightarrow> error + buffer" where
  "recompress deflateSync savefile binfile =
     (let compressedBuffer = deflateSync binfile
      in bindE (recompress_finalBuffer compressedBuffer)
           (\<lambda>finalBuffer.
              let civsav = savefile;
                  modindex = lastIndexOf civsav MOD_TITLE;
                  bufstartindex = indexOf civsav zlib_start modindex;
                  bufendindex = lastIndexOf civsav sync_flush + 4;
                  merged = slice civsav 0 bufstartindex @ finalBuffer
                           @ slice_from civsav bufendindex
              in Inr merged))"

text \<open>\<open>modify\<close>: decompress, run the callback on the blob, recompress.\<close>

definition modify ::
  "(buffer \<Rightarrow> error + buffer) \<Rightarrow> (buffer \<Rightarrow> buffer) \<Rightarrow> buffer
    \<Rightarrow> (buffer \<Rightarrow> error + buffer) \<Rightarrow> error + buffer" where
  "modify inflateSync deflateSync savefile callback =
     bindE (decompress inflateSync savefile)
       (\<lambda>bin. bindE (callback bin) (\<lambda>moddedbin. recompress deflateSync savefile moddedbin))"

section \<open>The tile table: modifytiles\<close>

definition searchBuffer :: buffer where
  "searchBuffer = [0x0E, 0x00, 0x00, 0x00, 0x0F, 0x00, 0x00, 0x00, 0x06, 0x00, 0x00, 0x00]"

text \<open>
  Lines 99-104 of \<open>modifytiles\<close>: the length of the trailing part of the record at
  \<open>mindex\<close>, from the byte at offset 49 and the 32-bit value at offset 51.
\<close>

definition modifytiles_buflength :: "buffer \<Rightarrow> int \<Rightarrow> error + int" where
  "modifytiles_buflength bin mindex =
     bindE (readUInt8 bin (mindex + 49)) (\<lambda>num2.
     bindE (readUInt32LE bin (mindex + 51)) (\<lambda>num.
       Inr ((if num \<noteq> 0 then 24 else 0) + (if 64 \<le> num2 then 17 else 0))))"

text \<open>
  The for loop of \<open>modifytiles\<close>, with the number of iterations left as first argument.
  The callback is a function from the bytes of a record to the bytes that replace them.
\<close>

fun modifytiles_loop ::
  "nat \<Rightarrow> (buffer \<Rightarrow> buffer) \<Rightarrow> buffer \<Rightarrow> int \<Rightarrow> error + buffer" where
  "modifytiles_loop 0 callback bin mindex = Inr bin"
| "modifytiles_loop (Suc n) callback bin mindex =
     bindE (modifytiles_buflength bin mindex) (\<lambda>buflength.
       let tilebuf = slice bin mindex (mindex + 55 + buflength);
           newtilebuf = callback tilebuf
       in bindE (copy newtilebuf bin mindex) (\<lambda>bin'.
            modifytiles_loop n callback bin' (mindex + 55 + buflength)))"

text \<open>The function that \<open>modifytiles\<close> passes to \<open>modify\<close>.\<close>

definition modifytiles_bin :: "(buffer \<Rightarrow> buffer) \<Rightarrow> buffer \<Rightarrow> error + buffer" where
  "modifytiles_bin callback bin =
     (let mapstartindex = indexOf bin searchBuffer 0
      in bindE (readInt32LE bin (mapstartindex + 12)) (\<lambda>tiles.
           let mindex = mapstartindex + 16
           in modifytiles_loop (nat tiles) callback bin mindex))"

definition modifytiles ::
  "(buffer \<Rightarrow> error + buffer) \<Rightarrow> (buffer \<Rightarrow> buffer) \<Rightarrow> buffer
    \<Rightarrow> (buffer \<Rightarrow> buffer) \<Rightarrow> error + buffer" where
  "modifytiles inflateSync deflateSync savefile callback =
     modify inflateSync deflateSync savefile (modifytiles_bin callback)"

section \<open>The tile table: savetomapjson\<close>

text \<open>The table \<open>mapsizedata\<close>: tile count to the map's width and height.\<close>

definition mapsizedata :: "int \<Rightarrow> (int \<times> int) option" where
  "mapsizedata tiles =
     (if tiles = 1144 then Some (44, 26)
      else if tiles = 2280 then Some (60, 38)
      else if tiles = 3404 then Some (74, 46)
      else if tiles = 4536 then Some (84, 54)
      else if tiles = 5760 then Some (96, 60)
      else if tiles = 6996 then Some (106, 66)
      else None)"

text \<open>\<open>mapsizedata[tiles].x\<close>: a TypeError when the count is not a key of the table.\<close>

definition mapsizedata_x :: "int \<Rightarrow> error + int" where
  "mapsizedata_x tiles = (case mapsizedata tiles of None \<Rightarrow> Inl TypeError | Some s \<Rightarrow> Inr (fst s))"

text \<open>\<open>buf.toString('hex')\<close>: two lower-case hexadecimal digits per byte.\<close>

definition hex_digit :: "nat \<Rightarrow> char" where
  "hex_digit n = ''0123456789abcdef'' ! n"

definition toString_hex :: "buffer \<Rightarrow> string" where
  "toString_hex buf = concat (map (\<lambda>b. [hex_digit (unat b div 16), hex_digit (unat b mod 16)]) buf)"

text \<open>
  The object literal of the loop body (the version of the file with the four separate
  sub-buffers), and the keys added to it afterwards. \<open>buffer1_flag\<close> is a number or the
  empty string: \<open>None\<close> stands for the empty string.
\<close>

record header =
  tile_x :: int
  tile_y :: int
  hex_location :: int
  int16_1 :: int
  int16_2 :: int
  int16_3 :: int
  int16_4 :: int
  landmass :: int
  terrain :: int
  feature :: int
  natural_wonder :: int
  continent :: int
  number_of_units :: int
  resource :: int
  resource_boolean :: int
  improvement :: int
  improvement_owner :: int
  road_level :: int
  appeal :: int
  river_e :: int
  river_se :: int
  river_sw :: int
  river_count :: int
  river_map :: int
  cliff_map :: int
  flags1 :: int
  flags2 :: int
  flags3 :: int
  flags4 :: int
  flags5 :: int
  flags6 :: int
  flags7 :: int

record tile = header +
  buffer1 :: string
  buffer1_flag :: "int option"
  buffer2 :: string
  buffer3 :: string
  buffer4 :: string
  tile_length :: int

text \<open>
  The object literal: the properties are evaluated in the order written, so the lookup in
  \<open>mapsizedata\<close> comes before every read. The index \<open>i\<close> is never negative, where
  \<open>%\<close> and \<open>Math.floor(_ / _)\<close> are \<open>mod\<close> and \<open>div\<close>.
\<close>

definition savetomapjson_obj :: "buffer \<Rightarrow> int \<Rightarrow> int \<Rightarrow> int \<Rightarrow> error + header" where
  "savetomapjson_obj bin tiles i mindex =
     bindE (mapsizedata_x tiles) (\<lambda>w.
     bindE (mapsizedata_x tiles) (\<lambda>w'.
     bindE (readInt16LE bin mindex) (\<lambda>v_int16_1.
     bindE (readInt16LE bin (mindex + 2)) (\<lambda>v_int16_2.
     bindE (readInt16LE bin (mindex + 4)) (\<lambda>v_int16_3.
     bindE (readInt16LE bin (mindex + 8)) (\<lambda>v_int16_4.
     bindE (readInt32LE bin (mindex + 8)) (\<lambda>v_landmass.
     bindE (readUInt32LE bin (mindex + 12)) (\<lambda>v_terrain.
     bindE (readUInt32LE bin (mindex + 16)) (\<lambda>v_feature.
     bindE (readInt16LE bin (mindex + 20)) (\<lambda>v_natural_wonder.
     bindE (readUInt32LE bin (mindex + 22)) (\<lambda>v_continent.
     bindE (readInt8 bin (mindex + 26)) (\<lambda>v_number_of_units.
     bindE (readUInt32LE bin (mindex + 27)) (\<lambda>v_resource.
     bindE (readInt16LE bin (mindex + 31)) (\<lambda>v_resource_boolean.
     bindE (readUInt32LE bin (mindex + 33)) (\<lambda>v_improvement.
     bindE (readInt8 bin (mindex + 37)) (\<lambda>v_improvement_owner.
     bindE (readInt16LE bin (mindex + 38)) (\<lambda>v_road_level.
     bindE (readInt16LE bin (mindex + 40)) (\<lambda>v_appeal.
     bindE (readInt8 bin (mindex + 42)) (\<lambda>v_river_e.
     bindE (readInt8 bin (mindex + 43)) (\<lambda>v_river_se.
     bindE (readInt8 bin (mindex + 44)) (\<lambda>v_river_sw.
     bindE (readUInt8 bin (mindex + 45)) (\<lambda>v_river_count.
     bindE (readUInt8 bin (mindex + 46)) (\<lambda>v_river_map.
     bindE (readUInt8 bin (mindex + 47)) (\<lambda>v_cliff_map.
     bindE (readUInt8 bin (mindex + 48)) (\<lambda>v_flags1.
     bindE (readUInt8 bin (mindex + 49)) (\<lambda>v_flags2.
     bindE (readUInt8 bin (mindex + 50)) (\<lambda>v_flags3.
     bindE (readUInt8 bin (mindex + 51)) (\<lambda>v_flags4.
     bindE (readUInt8 bin (mindex + 52)) (\<lambda>v_flags5.
     bindE (readUInt8 bin (mindex + 53)) (\<lambda>v_flags6.
     bindE (readUInt8 bin (mindex + 54)) (\<lambda>v_flags7.
       Inr \<lparr>tile_x = i mod w, tile_y = i div w', hex_location = mindex,
            int16_1 = v_int16_1, int16_2 = v_int16_2, int16_3 = v_int16_3,
            int16_4 = v_int16_4, landmass = v_landmass, terrain = v_terrain,
            feature = v_feature, natural_wonder = v_natural_wonder,
            continent = v_continent, number_of_units = v_number_of_units,
            resource = v_resource, resource_boolean = v_resource_boolean,
            improvement = v_improvement, improvement_owner = v_improvement_owner,
            road_level = v_road_level, appeal = v_appeal, river_e = v_river_e,
            river_se = v_river_se, river_sw = v_river_sw, river_count = v_river_count,
            river_map = v_river_map, cliff_map = v_cliff_map, flags1 = v_flags1,
            flags2 = v_flags2, flags3 = v_flags3, flags4 = v_flags4, flags5 = v_flags5,
            flags6 = v_flags6, flags7 = v_flags7\<rparr>)))))))))))))))))))))))))))))))"

text \<open>
  One iteration of the loop: the object literal, then the sub-buffers that the flags
  announce. The result is the finished object and the value of \<open>mindex\<close> after it.
\<close>

definition savetomapjson_tile ::
  "buffer \<Rightarrow> int \<Rightarrow> int \<Rightarrow> int \<Rightarrow> error + (tile \<times> int)" where
  "savetomapjson_tile bin tiles i mindex0 =
     (let orig_mindex = mindex0
      in bindE (savetomapjson_obj bin tiles i mindex0) (\<lambda>obj.
           let mindex = mindex0 + 55
           in bindE
                (if flags4 obj AND 1 \<noteq> 0
                 then let b1 = toString_hex (slice bin mindex (mindex + 24))
                      in bindE (readUInt8 bin (mindex + 20)) (\<lambda>b1_flag.
                           let mindex = mindex + 24
                           in if b1_flag AND 1 \<noteq> 0
                              then Inr (b1, Some b1_flag,
                                        toString_hex (slice bin mindex (mindex + 20)),
                                        mindex + 20)
                              else Inr (b1, Some b1_flag, [], mindex))
                 else Inr ([], None, [], mindex))
                (\<lambda>(b1, b1_flag, b2, mindex).
                   let (b3, mindex) =
                         (if flags4 obj AND 2 \<noteq> 0
                          then (toString_hex (slice bin mindex (mindex + 44)), mindex + 44)
                          else ([], mindex));
                       (b4, mindex) =
                         (if flags2 obj AND 64 \<noteq> 0
                          then (toString_hex (slice bin mindex (mindex + 17)), mindex + 17)
                          else ([], mindex))
                   in Inr (header.extend obj
                             (tile.fields b1 b1_flag b2 b3 b4 (mindex - orig_mindex)),
                           mindex))))"

text \<open>
  The for loop, with the number of iterations left as first argument; \<open>i\<close> is the loop
  counter. The result is \<open>map.tiles\<close>.
\<close>

fun savetomapjson_loop :: "nat \<Rightarrow> buffer \<Rightarrow> int \<Rightarrow> int \<Rightarrow> int \<Rightarrow> error + tile list" where
  "savetomapjson_loop 0 bin tiles i mindex = Inr []"
| "savetomapjson_loop (Suc n) bin tiles i mindex =
     bindE (savetomapjson_tile bin tiles i mindex) (\<lambda>(obj, mindex').
       bindE (savetomapjson_loop n bin tiles (i + 1) mindex') (\<lambda>rest. Inr (obj # rest)))"

text \<open>\<open>savetomapjson\<close> after the call of \<open>decompress\<close>, and the whole function.\<close>

definition savetomapjson_bin :: "buffer \<Rightarrow> error + tile list" where
  "savetomapjson_bin bin =
     (let mapstartindex = indexOf bin searchBuffer 0
      in bindE (readInt32LE bin (mapstartindex + 12)) (\<lambda>tiles.
           let mindex = mapstartindex + 16
           in savetomapjson_loop (nat tiles) bin tiles 0 mindex))"

definition savetomapjson :: "(buffer \<Rightarrow> error + buffer) \<Rightarrow> buffer \<Rightarrow> error + tile list" where
  "savetomapjson inflateSync savefile =
     bindE (decompress inflateSync savefile) savetomapjson_bin"

section \<open>savetomapjson in the revision with a single buffer\<close>

text \<open>
  The source holds two revisions of index.js. The definitions above follow the
  revision whose \<open>savetomapjson\<close> separates the four sub-buffers; \<open>decompress\<close>,
  \<open>recompress\<close>, \<open>modify\<close> and \<open>modifytiles\<close> are the same in both. In the other
  revision the loop body of \<open>savetomapjson\<close> first reads the two flag bytes and computes
  one trailing length, then builds the object, whose key \<open>buffer\<close> renders all trailing
  bytes.
\<close>

record tile_v1 =
  v1_x :: int
  v1_y :: int
  v1_hex_location :: int
  v1_tile_length :: int
  v1_int16_1 :: int
  v1_int16_2 :: int
  v1_int16_3 :: int
  v1_int16_4 :: int
  v1_landmass :: int
  v1_terrain :: int
  v1_feature :: int
  v1_natural_wonder :: int
  v1_continent :: int
  v1_number_of_units :: int
  v1_resource_type :: int
  v1_resource_boolean :: int
  v1_improvement :: int
  v1_improvement_player :: int
  v1_road_level :: int
  v1_road_level_2 :: int
  v1_appeal :: int
  v1_river_e :: int
  v1_river_se :: int
  v1_river_sw :: int
  v1_river_count :: int
  v1_river_map :: int
  v1_cliff_map :: int
  v1_flags1 :: int
  v1_flags2 :: int
  v1_flags3 :: int
  v1_flags4 :: int
  v1_flags5 :: int
  v1_flags6 :: int
  v1_flags7 :: int
  v1_buffer :: string

definition savetomapjson_v1_tile ::
  "buffer \<Rightarrow> int \<Rightarrow> int \<Rightarrow> int \<Rightarrow> error + (tile_v1 \<times> int)" where
  "savetomapjson_v1_tile bin tiles i mindex =
     bindE (readUInt8 bin (mindex + 49)) (\<lambda>num1.
     bindE (readUInt8 bin (mindex + 51)) (\<lambda>num2.
       let buflength = (if num1 AND 64 \<noteq> 0 then 17 else 0)
                       + (if num2 AND 1 \<noteq> 0 then 24 else 0)
                       + (if num2 AND 2 \<noteq> 0 then 44 else 0)
       in
     bindE (mapsizedata_x tiles) (\<lambda>w.
     bindE (mapsizedata_x tiles) (\<lambda>w'.
     bindE (readUInt16LE bin mindex) (\<lambda>v_int16_1.
     bindE (readUInt16LE bin (mindex + 2)) (\<lambda>v_int16_2.
     bindE (readUInt16LE bin (mindex + 4)) (\<lambda>v_int16_3.
     bindE (readUInt16LE bin (mindex + 8)) (\<lambda>v_int16_4.
     bindE (readUInt32LE bin (mindex + 8)) (\<lambda>v_landmass.
     bindE (readUInt32LE bin (mindex + 12)) (\<lambda>v_terrain.
     bindE (readUInt32LE bin (mindex + 16)) (\<lambda>v_feature.
     bindE (readInt16LE bin (mindex + 20)) (\<lambda>v_natural_wonder.
     bindE (readUInt32LE bin (mindex + 22)) (\<lambda>v_continent.
     bindE (readInt8 bin (mindex + 26)) (\<lambda>v_number_of_units.
     bindE (readUInt32LE bin (mindex + 27)) (\<lambda>v_resource_type.
     bindE (readInt16LE bin (mindex + 31)) (\<lambda>v_resource_boolean.
     bindE (readUInt32LE bin (mindex + 33)) (\<lambda>v_improvement.
     bindE (readUInt8 bin (mindex + 37)) (\<lambda>v_improvement_player.
     bindE (readUInt8 bin (mindex + 38)) (\<lambda>v_road_level.
     bindE (readUInt8 bin (mindex + 39)) (\<lambda>v_road_level_2.
     bindE (readInt16LE bin (mindex + 40)) (\<lambda>v_appeal.
     bindE (readUInt8 bin (mindex + 42)) (\<lambda>v_river_e.
     bindE (readUInt8 bin (mindex + 43)) (\<lambda>v_river_se.
     bindE (readUInt8 bin (mindex + 44)) (\<lambda>v_river_sw.
     bindE (readUInt8 bin (mindex + 45)) (\<lambda>v_river_count.
     bindE (readUInt8 bin (mindex + 46)) (\<lambda>v_river_map.
     bindE (readInt8 bin (mindex + 47)) (\<lambda>v_cliff_map.
     bindE (readUInt8 bin (mindex + 48)) (\<lambda>v_flags1.
     bindE (readUInt8 bin (mindex + 49)) (\<lambda>v_flags2.
     bindE (readUInt8 bin (mindex + 50)) (\<lambda>v_flags3.
     bindE (readUInt8 bin (mindex + 51)) (\<lambda>v_flags4.
     bindE (readUInt8 bin (mindex + 52)) (\<lambda>v_flags5.
     bindE (readUInt8 bin (mindex + 53)) (\<lambda>v_flags6.
     bindE (readUInt8 bin (mindex + 54)) (\<lambda>v_flags7.
       Inr (\<lparr>v1_x = i mod w, v1_y = i div w', v1_hex_location = mindex,
            v1_tile_length = 55 + buflength,
            v1_int16_1 = v_int16_1, v1_int16_2 = v_int16_2, v1_int16_3 = v_int16_3,
            v1_int16_4 = v_int16_4, v1_landmass = v_landmass, v1_terrain = v_terrain,
            v1_feature = v_feature, v1_natural_wonder = v_natural_wonder,
            v1_continent = v_continent, v1_number_of_units = v_number_of_units,
            v1_resource_type = v_resource_type, v1_resource_boolean = v_resource_boolean,
            v1_improvement = v_improvement, v1_improvement_player = v_improvement_player,
            v1_road_level = v_road_level, v1_road_level_2 = v_road_level_2,
            v1_appeal = v_appeal, v1_river_e = v_river_e, v1_river_se = v_river_se,
            v1_river_sw = v_river_sw, v1_river_count = v_river_count,
            v1_river_map = v_river_map, v1_cliff_map = v_cliff_map, v1_flags1 = v_flags1,
            v1_flags2 = v_flags2, v1_flags3 = v_flags3, v1_flags4 = v_flags4,
            v1_flags5 = v_flags5, v1_flags6 = v_flags6, v1_flags7 = v_flags7,
            v1_buffer = toString_hex (slice bin (mindex + 55) (mindex + 55 + buflength))\<rparr>,
            mindex + 55 + buflength)))))))))))))))))))))))))))))))))))"

fun savetomapjson_v1_loop ::
  "nat \<Rightarrow> buffer \<Rightarrow> int \<Rightarrow> int \<Rightarrow> int \<Rightarrow> error + tile_v1 list" where
  "savetomapjson_v1_loop 0 bin tiles i mindex = Inr []"
| "savetomapjson_v1_loop (Suc n) bin tiles i mindex =
     bindE (savetomapjson_v1_tile bin tiles i mindex) (\<lambda>(obj, mindex').
       bindE (savetomapjson_v1_loop n bin tiles (i + 1) mindex') (\<lambda>rest. Inr (obj # rest)))"

definition savetomapjson_v1_bin :: "buffer \<Rightarrow> error + tile_v1 list" where
  "savetomapjson_v1_bin bin =
     (let mapstartindex = indexOf bin searchBuffer 0
      in bindE (readInt32LE bin (mapstartindex + 12)) (\<lambda>tiles.
           let mindex = mapstartindex + 16
           in savetomapjson_v1_loop (nat tiles) bin tiles 0 mindex))"

definition savetomapjson_v1 ::
  "(buffer \<Rightarrow> error + buffer) \<Rightarrow> buffer \<Rightarrow> error + tile_v1 list" where
  "savetomapjson_v1 inflateSync savefile =
     bindE (decompress inflateSync savefile) savetomapjson_v1_bin"

section \<open>The record-length rule of the data model, and sample records\<close>

text \<open>
  The rule as the data model words it, in terms of the flag bytes \<open>flags2\<close> and
  \<open>flags4\<close> of the header and of the byte at relative offset 20 of sub-buffer A:
  \<open>55 + (24 if A) + (20 if A and B) + (44 if C) + (17 if D)\<close>.
\<close>

definition record_length_rule :: "int \<Rightarrow> int \<Rightarrow> int \<Rightarrow> int" where
  "record_length_rule f2 f4 bufferA_flag =
     55 + (if f4 AND 1 \<noteq> 0 then 24 else 0)
        + (if f4 AND 1 \<noteq> 0 \<and> bufferA_flag AND 1 \<noteq> 0 then 20 else 0)
        + (if f4 AND 2 \<noteq> 0 then 44 else 0)
        + (if f2 AND 64 \<noteq> 0 then 17 else 0)"

text \<open>
  A record whose \<open>flags4\<close> is 2 (header of 55 bytes and the 44 bytes of sub-buffer C),
  and a header whose \<open>flags2\<close> is 0x80, followed by 17 zero bytes.
\<close>

definition record_flags4_2 :: buffer where
  "record_flags4_2 = replicate 51 0 @ [2] @ replicate 47 0"

definition record_flags2_128 :: buffer where
  "record_flags2_128 = replicate 49 0 @ [0x80] @ replicate 22 0"

text \<open>A blob with the table marker, the count 1 and the first of these records.\<close>

definition blob_one_record :: buffer where
  "blob_one_record = searchBuffer @ [1, 0, 0, 0] @ record_flags4_2"

section \<open>Sample blobs\<close>

text \<open>
  A blob with the table marker, the count 1, one record without sub-buffers and five more
  bytes; a blob without the table marker whose bytes 11 to 14 hold the number 1, followed
  by 55 bytes; and a blob with the table marker and the count 0.
\<close>

definition blob_plain_record :: buffer where
  "blob_plain_record = searchBuffer @ [1, 0, 0, 0] @ replicate 55 0 @ [9, 9, 9, 9, 9]"

definition blob_no_marker :: buffer where
  "blob_no_marker = replicate 11 0 @ [1, 0, 0, 0] @ replicate 55 0"

definition blob_count_0 :: buffer where
  "blob_count_0 = searchBuffer @ [0, 0, 0, 0]"

text \<open>
  A blob with the table marker, the count 5, which is not a key of \<open>mapsizedata\<close>, and
  one record; and a blob with the table marker, the count 1144 and 1144 records of 55 zero
  bytes.
\<close>

definition blob_count_5 :: buffer where
  "blob_count_5 = searchBuffer @ [5, 0, 0, 0] @ replicate 55 0"

definition blob_1144_records :: buffer where
  "blob_1144_records = searchBuffer @ [0x78, 0x04, 0, 0] @ replicate (1144 * 55) 0"



section \<open>Occurrences of a marker\<close>

text \<open>
  \<open>contains buf needle\<close>: the non-empty needle occurs somewhere in the buffer, that is,
  it starts at one of the positions of the buffer.
\<close>

definition contains :: "buffer \<Rightarrow> buffer \<Rightarrow> bool" where
  "contains buf needle = list_ex (\<lambda>k. occurs_here needle (drop k buf)) [0 ..< length buf]"

section \<open>A reference zlib codec restricted to stored blocks\<close>

text \<open>
  zlib itself is not part of index.js. To run the container codec on concrete inputs, this
  section gives a small codec in the zlib format (RFC 1950 and RFC 1951) that uses stored
  blocks only. \<open>deflateSync_stored\<close> writes the header \<open>78 9C\<close>, the data in stored
  blocks of at most 65535 bytes (a zero header byte, the length and its complement as
  16-bit little-endian numbers, the bytes), and the empty stored block
  \<open>00 00 00 FF FF\<close> that a sync flush appends; it writes no final block and no checksum.
\<close>

function stored_blocks :: "buffer \<Rightarrow> buffer" where
  "stored_blocks data =
     (if data = [] then []
      else let n = length (take 65535 data)
           in [0x00, of_nat n, of_nat (n div 256), of_nat (65535 - n), of_nat ((65535 - n) div 256)]
              @ take 65535 data @ stored_blocks (drop 65535 data))"
  by pat_completeness auto
termination
  by (relation "measure length") auto

declare stored_blocks.simps [simp del]

definition deflateSync_stored :: "buffer \<Rightarrow> buffer" where
  "deflateSync_stored binfile =
     [0x78, 0x9C] @ stored_blocks binfile @ [0x00, 0x00, 0x00, 0xFF, 0xFF]"

text \<open>
  \<open>inflateSync_stored\<close> reads such a stream the way \<open>inflateSync\<close> does when
  \<open>finishFlush\<close> is \<open>Z_SYNC_FLUSH\<close>: input that ends early is not an error, the bytes
  decoded so far are returned. A wrong header, a block whose length and complement
  disagree, and a block that is not a non-final stored block (which this reference codec
  does not decode) give a \<open>ZlibError\<close>.
\<close>

function inflate_stored_blocks :: "buffer \<Rightarrow> error + buffer" where
  "inflate_stored_blocks input =
     (case input of
        [] \<Rightarrow> Inr []
      | h # rest \<Rightarrow>
          if h AND 7 \<noteq> 0 then Inl ZlibError
          else if length rest < 4 then Inr []
          else let len = unat (rest ! 0) + 256 * unat (rest ! 1);
                   nlen = unat (rest ! 2) + 256 * unat (rest ! 3)
               in if len + nlen \<noteq> 65535 then Inl ZlibError
                  else bindE (inflate_stored_blocks (drop (4 + len) rest))
                         (\<lambda>more. Inr (take len (drop 4 rest) @ more)))"
  by pat_completeness auto
termination
  by (relation "measure length") auto

declare inflate_stored_blocks.simps [simp del]

definition inflateSync_stored :: "buffer \<Rightarrow> error + buffer" where
  "inflateSync_stored input =
     (if length input < 2 then Inr []
      else if input ! 0 AND 0x0F \<noteq> 8 \<or> (unat (input ! 0) * 256 + unat (input ! 1)) mod 31 \<noteq> 0
      then Inl ZlibError
      else inflate_stored_blocks (drop 2 input))"

text \<open>A small container: two bytes, the anchor, a zlib start, a span, the end marker, a tail.\<close>

definition sample_container :: buffer where
  "sample_container =
     [1, 2] @ MOD_TITLE @ [3] @ zlib_start @ [5, 6] @ sync_flush @ [7, 8, 9]"

text \<open>
  A container in which every search succeeds, but whose last \<open>MOD_TITLE\<close> (and the zlib
  start after it) comes after its last sync-flush marker.
\<close>

definition container_anchor_after_end :: buffer where
  "container_anchor_after_end = sync_flush @ MOD_TITLE @ zlib_start"

section \<open>Basic facts\<close>

lemma bindE_Inr [simp]: "bindE (Inr v) f = f v"
  by (simp add: bindE_def)

lemma bindE_Inl [simp]: "bindE (Inl e) f = Inl e"
  by (simp add: bindE_def)

lemma slice_nat: "slice buf (int a) (int b) = take (b - a) (drop a buf)"
proof (cases "a \<le> length buf")
  case True
  then show ?thesis
    by (auto simp: slice_def adjustOffset_def Let_def min_def)
next
  case False
  then show ?thesis
    by (simp add: slice_def adjustOffset_def Let_def)
qed

lemma slice_chunk: "slice buf (int i) (int i + int n) = take n (drop i buf)"
  using slice_nat [of buf i "i + n"] by simp

section \<open>The framing of recompress\<close>

lemma writeInt32LE_length:
  "writeInt32LE (int (length (take CHUNK_LENGTH xs)))
     = Inr (int32le (int (length (take CHUNK_LENGTH xs))))"
  by (simp add: writeInt32LE_def CHUNK_LENGTH_def)

lemma recompress_chunks_past: "length c \<le> i \<Longrightarrow> recompress_chunks c i = Inr []"
  by (simp add: recompress_chunks.simps [of c i])

lemma recompress_chunks_step:
  "i < length c \<Longrightarrow>
   recompress_chunks c i =
     bindE (recompress_chunks c (i + CHUNK_LENGTH))
       (\<lambda>chunks. Inr ((if i = 0 then []
                         else [int32le (int (length (take CHUNK_LENGTH (drop i c))))])
                        @ [take CHUNK_LENGTH (drop i c)] @ chunks))"
  by (subst recompress_chunks.simps)
     (simp add: slice_chunk Let_def writeInt32LE_length del: length_take)

lemma chunk_count: "(j < (n + 65535) div 65536) = (j * 65536 < (n::nat))"
  by arith

lemma recompress_chunks_closed:
  "recompress_chunks c (j * CHUNK_LENGTH) =
     Inr (concat (map (\<lambda>k. (if k = 0 then []
                              else [int32le (int (length (take CHUNK_LENGTH (drop (k * CHUNK_LENGTH) c))))])
                            @ [take CHUNK_LENGTH (drop (k * CHUNK_LENGTH) c)])
                  [j ..< (length c + 65535) div 65536]))"
proof (induction "(length c + 65535) div 65536 - j" arbitrary: j)
  case 0
  then have "length c \<le> j * CHUNK_LENGTH"
    using chunk_count [of j "length c"] by (simp add: CHUNK_LENGTH_def)
  with 0 show ?case by (simp add: recompress_chunks_past)
next
  case (Suc d)
  then have lt: "j < (length c + 65535) div 65536" by simp
  then have inside: "j * CHUNK_LENGTH < length c"
    using chunk_count [of j "length c"] by (simp add: CHUNK_LENGTH_def)
  have next_ix: "j * CHUNK_LENGTH + CHUNK_LENGTH = Suc j * CHUNK_LENGTH" by simp
  have ih: "recompress_chunks c (Suc j * CHUNK_LENGTH) =
     Inr (concat (map (\<lambda>k. (if k = 0 then []
                              else [int32le (int (length (take CHUNK_LENGTH (drop (k * CHUNK_LENGTH) c))))])
                            @ [take CHUNK_LENGTH (drop (k * CHUNK_LENGTH) c)])
                  [Suc j ..< (length c + 65535) div 65536]))"
    using Suc by (intro Suc.hyps(1)) simp
  show ?case
    unfolding recompress_chunks_step [OF inside] next_ix ih
    using lt by (simp add: upt_conv_Cons CHUNK_LENGTH_def del: length_take mult_Suc)
qed

lemma concat_concat_map: "concat (concat xss) = concat (map concat xss)"
  by (induction xss) auto

lemma finalBuffer_closed:
  "recompress_finalBuffer c =
     Inr (concat (map (\<lambda>k. (if k = 0 then []
                              else int32le (int (length (take 65536 (drop (k * 65536) c)))))
                            @ take 65536 (drop (k * 65536) c))
                  [0 ..< (length c + 65535) div 65536]))"
proof -
  have "recompress_chunks c 0 = recompress_chunks c (0 * CHUNK_LENGTH)" by simp
  then show ?thesis
    unfolding recompress_finalBuffer_def recompress_chunks_closed
    by (simp add: concat_concat_map o_def CHUNK_LENGTH_def if_distrib [of concat]
             cong: if_cong del: length_take)
qed

lemma byte_of_int: "uint (word_of_int v :: byte) = v mod 256"
  by (simp add: uint_word_of_int)

lemma le_uint_int32le: "0 \<le> v \<Longrightarrow> v < 2 ^ 31 \<Longrightarrow> le_uint (int32le v) = v"
proof -
  assume a: "0 \<le> v" "v < 2 ^ 31"
  have s2: "v div 65536 = v div 256 div 256"
    using zdiv_zmult2_eq [of 256 v 256] by simp
  have s3: "v div 16777216 = v div 256 div 256 div 256"
    using zdiv_zmult2_eq [of 256 v 65536] s2 by simp
  have small: "v div 16777216 mod 256 = v div 16777216" using a by simp
  have split: "x mod 256 + 256 * (x div 256) = x" for x :: int
    by simp
  have "le_uint (int32le v) =
        v mod 256 + 256 * (v div 256 mod 256 + 256 * (v div 65536 mod 256 + 256 * (v div 16777216)))"
    by (simp add: le_uint_def int32le_def byte_of_int small)
  also have "\<dots> = v"
    unfolding s2 s3 split ..
  finally show ?thesis .
qed

text \<open>
  C8. The framed stream of a compressed span of exactly 64 KiB is the span itself (one
  chunk, no length field); that of a span of 64 KiB + 10 bytes is its first 64 KiB, the
  four bytes \<open>0A 00 00 00\<close> and its last 10 bytes. In general the framed stream is the
  concatenation of the 64 KiB chunks of the span in order, where the first chunk has no
  prefix and every later chunk is preceded by the 4-byte little-endian encoding of its own
  length.
\<close>

theorem chunk_framing:
  "(length c = 65536 \<longrightarrow> recompress_finalBuffer c = Inr c) \<and>
   (length c = 65536 + 10 \<longrightarrow>
      recompress_finalBuffer c = Inr (take 65536 c @ [10, 0, 0, 0] @ drop 65536 c)) \<and>
   recompress_finalBuffer c =
     Inr (concat (map (\<lambda>k. (if k = 0 then []
                              else int32le (int (length (take 65536 (drop (k * 65536) c)))))
                            @ take 65536 (drop (k * 65536) c))
                  [0 ..< (length c + 65535) div 65536])) \<and>
   (\<forall>k. length (int32le (int (length (take 65536 (drop (k * 65536) c))))) = 4 \<and>
        le_uint (int32le (int (length (take 65536 (drop (k * 65536) c)))))
          = int (length (take 65536 (drop (k * 65536) c))))"
proof (intro conjI impI allI)
  assume "length c = 65536"
  then show "recompress_finalBuffer c = Inr c"
    by (simp add: finalBuffer_closed)
next
  assume "length c = 65536 + 10"
  moreover have "[0 ..< 2] = [0, Suc 0]"
    by (simp add: numeral_2_eq_2)
  ultimately show "recompress_finalBuffer c = Inr (take 65536 c @ [10, 0, 0, 0] @ drop 65536 c)"
    by (simp add: finalBuffer_closed int32le_def)
next
  show "recompress_finalBuffer c =
     Inr (concat (map (\<lambda>k. (if k = 0 then []
                              else int32le (int (length (take 65536 (drop (k * 65536) c)))))
                            @ take 65536 (drop (k * 65536) c))
                  [0 ..< (length c + 65535) div 65536]))"
    by (rule finalBuffer_closed)
next
  fix k
  show "length (int32le (int (length (take 65536 (drop (k * 65536) c))))) = 4"
    by (simp add: int32le_def)
next
  fix k
  show "le_uint (int32le (int (length (take 65536 (drop (k * 65536) c)))))
          = int (length (take 65536 (drop (k * 65536) c)))"
    by (rule le_uint_int32le) simp_all
qed

text \<open>The theorem at a span of 64 KiB and at one of 64 KiB + 10 bytes.\<close>

theorem chunk_framing_witness:
  "recompress_finalBuffer (replicate 65536 7) = Inr (replicate 65536 7) \<and>
   recompress_finalBuffer (replicate 65536 7 @ replicate 10 9)
     = Inr (replicate 65536 7 @ [10, 0, 0, 0] @ replicate 10 9)"
  using chunk_framing [of "replicate 65536 7"]
        chunk_framing [of "replicate 65536 7 @ replicate 10 9"]
  by simp

section \<open>The two computations of the record length\<close>

lemma modifytiles_flags4_2: "modifytiles_buflength record_flags4_2 0 = Inr 24"
  by code_simp

lemma savetomapjson_flags4_2:
  "(case savetomapjson_tile record_flags4_2 1144 0 0 of
      Inl e \<Rightarrow> False
    | Inr (obj, m) \<Rightarrow> flags2 obj = 0 \<and> flags4 obj = 2 \<and> tile_length obj = 99)"
  by code_simp

lemma modifytiles_flags2_128: "modifytiles_buflength record_flags2_128 0 = Inr 17"
  by code_simp

lemma savetomapjson_flags2_128:
  "(case savetomapjson_tile record_flags2_128 1144 0 0 of
      Inl e \<Rightarrow> False
    | Inr (obj, m) \<Rightarrow> flags2 obj = 128 \<and> flags4 obj = 0 \<and> tile_length obj = 55)"
  by code_simp

text \<open>
  C10. The record length of \<open>modifytiles\<close> (55 plus 24 when the 32-bit value at header
  offset 51 is not zero, plus 17 when the byte at offset 49 is at least 64) and the record
  length of \<open>savetomapjson\<close> (the bit masks on \<open>flags4\<close> and \<open>flags2\<close>) are not the
  same function of the record's bytes: on a record with \<open>flags4 = 2\<close> the first is 79
  and the second 99, and on a record with \<open>flags2 = 0x80\<close> the first is 72 and the
  second 55.
\<close>

theorem tile_length_implementations_differ:
  "(\<exists>bin mindex tiles i len obj mindex'.
      modifytiles_buflength bin mindex = Inr len \<and>
      savetomapjson_tile bin tiles i mindex = Inr (obj, mindex') \<and>
      flags2 obj = 0 \<and> flags4 obj = 2 \<and> 55 + len = 79 \<and> tile_length obj = 99) \<and>
   (\<exists>bin mindex tiles i len obj mindex'.
      modifytiles_buflength bin mindex = Inr len \<and>
      savetomapjson_tile bin tiles i mindex = Inr (obj, mindex') \<and>
      flags2 obj = 128 \<and> flags4 obj = 0 \<and> 55 + len = 72 \<and> tile_length obj = 55)"
proof
  obtain obj m where "savetomapjson_tile record_flags4_2 1144 0 0 = Inr (obj, m)"
    and "flags2 obj = 0" and "flags4 obj = 2" and "tile_length obj = 99"
    using savetomapjson_flags4_2 by (auto split: sum.splits)
  then show "\<exists>bin mindex tiles i len obj mindex'.
      modifytiles_buflength bin mindex = Inr len \<and>
      savetomapjson_tile bin tiles i mindex = Inr (obj, mindex') \<and>
      flags2 obj = 0 \<and> flags4 obj = 2 \<and> 55 + len = 79 \<and> tile_length obj = 99"
    using modifytiles_flags4_2 by fastforce
next
  obtain obj m where "savetomapjson_tile record_flags2_128 1144 0 0 = Inr (obj, m)"
    and "flags2 obj = 128" and "flags4 obj = 0" and "tile_length obj = 55"
    using savetomapjson_flags2_128 by (auto split: sum.splits)
  then show "\<exists>bin mindex tiles i len obj mindex'.
      modifytiles_buflength bin mindex = Inr len \<and>
      savetomapjson_tile bin tiles i mindex = Inr (obj, mindex') \<and>
      flags2 obj = 128 \<and> flags4 obj = 0 \<and> 55 + len = 72 \<and> tile_length obj = 55"
    using modifytiles_flags2_128 by fastforce
qed

text \<open>
  C2. The record length of \<open>modifytiles\<close> does not follow the rule of the data model:
  on the record with \<open>flags2 = 0\<close> and \<open>flags4 = 2\<close> the rule gives 99 bytes, and
  \<open>modifytiles\<close> computes a trailing length of 24, so that the callback is given, and
  may rewrite, the first 79 bytes of the record only.
\<close>

theorem modifytiles_misses_subbuffer_C:
  "readUInt8 record_flags4_2 49 = Inr 0 \<and> readUInt8 record_flags4_2 51 = Inr 2 \<and>
   record_length_rule 0 2 0 = 99 \<and>
   modifytiles_buflength record_flags4_2 0 = Inr 24 \<and>
   modifytiles_bin (\<lambda>tilebuf. replicate (length tilebuf) 0xFF) blob_one_record
     = Inr (searchBuffer @ [1, 0, 0, 0] @ replicate 79 0xFF @ replicate 20 0)"
  by code_simp

section \<open>The splice of recompress\<close>

lemma search_first_bounds:
  "search_first needle xs i = r \<Longrightarrow> r = -1 \<or> (i \<le> r \<and> r < i + int (length xs))"
proof (induction xs arbitrary: i)
  case Nil
  then show ?case by simp
next
  case (Cons b bs)
  show ?case
  proof (cases "occurs_here needle (b # bs)")
    case True
    with Cons.prems show ?thesis by simp
  next
    case False
    with Cons.prems have "search_first needle bs (i + 1) = r" by simp
    from Cons.IH [OF this] show ?thesis by auto
  qed
qed

lemma indexOf_bounds:
  "indexOf buf needle byteOffset = -1 \<or>
   (0 \<le> indexOf buf needle byteOffset \<and> indexOf buf needle byteOffset < int (length buf))"
proof -
  define start where "start = (if byteOffset < 0
      then (if 0 \<le> byteOffset + int (length buf) then int (length buf) + byteOffset else 0)
      else byteOffset)"
  have eq: "indexOf buf needle byteOffset = search_first needle (drop (nat start) buf) start"
    by (simp add: indexOf_def Let_def start_def)
  have nonneg: "0 \<le> start" by (simp add: start_def)
  from search_first_bounds [OF refl, of needle "drop (nat start) buf" start] nonneg
  show ?thesis unfolding eq by auto
qed

lemma slice_to: "0 \<le> e \<Longrightarrow> slice buf 0 e = take (nat e) buf"
  using slice_nat [of buf 0 "nat e"] by simp

lemma slice_from_nat: "0 \<le> k \<Longrightarrow> slice_from buf k = drop (nat k) buf"
  by (cases "nat k \<le> length buf") (simp_all add: slice_from_def adjustOffset_def min_def)

lemma finalBuffer_total: "\<exists>finalBuffer. recompress_finalBuffer c = Inr finalBuffer"
  by (simp add: finalBuffer_closed)

text \<open>
  C9. When the three searches of \<open>recompress\<close> succeed (the anchor \<open>MOD_TITLE\<close>, the
  zlib start after its last occurrence, and the last sync-flush marker), the container
  returned is the original up to the zlib start, then the framed stream, then the original
  from 4 bytes past the start of the last sync-flush marker: the bytes before the zlib start
  and the bytes after the end boundary are those of the original container.
\<close>

theorem recompress_frame:
  assumes "0 \<le> lastIndexOf savefile MOD_TITLE"
    and "0 \<le> indexOf savefile zlib_start (lastIndexOf savefile MOD_TITLE)"
    and "0 \<le> lastIndexOf savefile sync_flush"
  shows "\<exists>finalBuffer merged.
           recompress_finalBuffer (deflateSync binfile) = Inr finalBuffer \<and>
           recompress deflateSync savefile binfile = Inr merged \<and>
           merged = take (nat (indexOf savefile zlib_start (lastIndexOf savefile MOD_TITLE))) savefile
                    @ finalBuffer
                    @ drop (nat (lastIndexOf savefile sync_flush) + 4) savefile \<and>
           take (nat (indexOf savefile zlib_start (lastIndexOf savefile MOD_TITLE))) merged
             = take (nat (indexOf savefile zlib_start (lastIndexOf savefile MOD_TITLE))) savefile \<and>
           drop (nat (indexOf savefile zlib_start (lastIndexOf savefile MOD_TITLE))
                 + length finalBuffer) merged
             = drop (nat (lastIndexOf savefile sync_flush) + 4) savefile"
proof -
  let ?s = "indexOf savefile zlib_start (lastIndexOf savefile MOD_TITLE)"
  let ?e = "lastIndexOf savefile sync_flush"
  obtain finalBuffer where fb: "recompress_finalBuffer (deflateSync binfile) = Inr finalBuffer"
    using finalBuffer_total by blast
  have s_le: "nat ?s \<le> length savefile"
    using indexOf_bounds [of savefile zlib_start "lastIndexOf savefile MOD_TITLE"] assms(2)
    by linarith
  have e4: "nat (?e + 4) = nat ?e + 4" using assms(3) by simp
  have merged: "recompress deflateSync savefile binfile
      = Inr (take (nat ?s) savefile @ finalBuffer @ drop (nat ?e + 4) savefile)"
    using assms(2,3) by (simp add: recompress_def Let_def fb slice_to slice_from_nat e4)
  show ?thesis
    using fb merged s_le by (intro exI conjI) (assumption | simp)+
qed

lemma finalBuffer_short: "length c \<le> 65536 \<Longrightarrow> recompress_finalBuffer c = Inr c"
proof (cases "c = []")
  case True
  then show ?thesis by (simp add: finalBuffer_closed)
next
  case False
  assume "length c \<le> 65536"
  with False have "(length c + 65535) div 65536 = 1"
    by (cases c) simp_all
  then show ?thesis using \<open>length c \<le> 65536\<close> by (simp add: finalBuffer_closed)
qed

lemma stored_blocks_short:
  "data \<noteq> [] \<Longrightarrow> length data \<le> 65535 \<Longrightarrow>
   stored_blocks data =
     [0x00, of_nat (length data), of_nat (length data div 256),
      of_nat (65535 - length data), of_nat ((65535 - length data) div 256)] @ data"
  by (subst stored_blocks.simps) (simp add: stored_blocks.simps [of "[]"] Let_def)

lemma deflateSync_stored_123:
  "deflateSync_stored [1, 2, 3]
     = [0x78, 0x9C, 0x00, 0x03, 0x00, 0xFC, 0xFF, 1, 2, 3, 0x00, 0x00, 0x00, 0xFF, 0xFF]"
  by (simp add: deflateSync_stored_def stored_blocks_short)

lemma sample_lastIndexOf_MOD_TITLE: "lastIndexOf sample_container MOD_TITLE = 2"
  by code_simp

lemma sample_indexOf_zlib_start: "indexOf sample_container zlib_start 2 = 12"
  by code_simp

lemma sample_lastIndexOf_sync_flush: "lastIndexOf sample_container sync_flush = 16"
  by code_simp

lemma sample_take: "take 12 sample_container = [1, 2] @ MOD_TITLE @ [3]"
  by code_simp

lemma sample_drop: "drop 20 sample_container = [7, 8, 9]"
  by code_simp

text \<open>The theorem at the sample container and the blob \<open>01 02 03\<close>.\<close>

theorem recompress_frame_witness:
  "recompress deflateSync_stored sample_container [1, 2, 3]
     = Inr ([1, 2] @ MOD_TITLE @ [3]
            @ [0x78, 0x9C, 0x00, 0x03, 0x00, 0xFC, 0xFF, 1, 2, 3, 0x00, 0x00, 0x00, 0xFF, 0xFF]
            @ [7, 8, 9])"
proof -
  have f: "recompress_finalBuffer
             [0x78, 0x9C, 0x00, 0x03, 0x00, 0xFC, 0xFF, 1, 2, 3, 0x00, 0x00, 0x00, 0xFF, 0xFF]
           = Inr [0x78, 0x9C, 0x00, 0x03, 0x00, 0xFC, 0xFF, 1, 2, 3, 0x00, 0x00, 0x00, 0xFF, 0xFF]"
    by (rule finalBuffer_short) simp
  from recompress_frame [of sample_container deflateSync_stored "[1, 2, 3]"]
  show ?thesis
    by (simp add: sample_lastIndexOf_MOD_TITLE sample_indexOf_zlib_start
          sample_lastIndexOf_sync_flush sample_take sample_drop f deflateSync_stored_123)
qed

section \<open>Searches for a marker that is absent\<close>

lemma contains_iff:
  "contains buf needle = (\<exists>k<length buf. occurs_here needle (drop k buf))"
  by (auto simp: contains_def list_ex_iff)

lemma contains_append:
  assumes "needle \<noteq> []"
  shows "contains buf needle = (\<exists>pre post. buf = pre @ needle @ post)"
proof
  assume "contains buf needle"
  then obtain k where k: "k < length buf" "take (length needle) (drop k buf) = needle"
    by (auto simp: contains_iff occurs_here_def)
  have "buf = take k buf @ take (length needle) (drop k buf) @ drop (length needle) (drop k buf)"
    by (simp only: append_take_drop_id)
  with k show "\<exists>pre post. buf = pre @ needle @ post" by metis
next
  assume "\<exists>pre post. buf = pre @ needle @ post"
  then obtain pre post where "buf = pre @ needle @ post" by blast
  with assms have "length pre < length buf \<and> occurs_here needle (drop (length pre) buf)"
    by (simp add: occurs_here_def)
  then show "contains buf needle" unfolding contains_iff by blast
qed

lemma search_first_none:
  "(\<forall>k<length xs. \<not> occurs_here needle (drop k xs)) \<Longrightarrow> search_first needle xs i = -1"
proof (induction xs arbitrary: i)
  case Nil
  then show ?case by simp
next
  case (Cons b bs)
  from Cons.prems have here: "\<not> occurs_here needle (b # bs)" by force
  have "\<forall>k<length bs. \<not> occurs_here needle (drop k bs)"
  proof (intro allI impI)
    fix k assume "k < length bs"
    then have "\<not> occurs_here needle (drop (Suc k) (b # bs))"
      using Cons.prems by (metis Suc_less_eq length_Cons)
    then show "\<not> occurs_here needle (drop k bs)" by simp
  qed
  with Cons.IH here show ?case by simp
qed

lemma search_last_none:
  "(\<forall>k<length xs. \<not> occurs_here needle (drop k xs)) \<Longrightarrow> search_last needle xs i found = found"
proof (induction xs arbitrary: i)
  case Nil
  then show ?case by simp
next
  case (Cons b bs)
  from Cons.prems have here: "\<not> occurs_here needle (b # bs)" by force
  have "\<forall>k<length bs. \<not> occurs_here needle (drop k bs)"
  proof (intro allI impI)
    fix k assume "k < length bs"
    then have "\<not> occurs_here needle (drop (Suc k) (b # bs))"
      using Cons.prems by (metis Suc_less_eq length_Cons)
    then show "\<not> occurs_here needle (drop k bs)" by simp
  qed
  with Cons.IH here show ?case by simp
qed

lemma lastIndexOf_absent: "\<not> contains buf needle \<Longrightarrow> lastIndexOf buf needle = -1"
  by (simp add: lastIndexOf_def contains_iff search_last_none)

lemma indexOf_absent: "\<not> contains buf needle \<Longrightarrow> indexOf buf needle 0 = -1"
  by (simp add: indexOf_def contains_iff search_first_none)

lemma search_last_bounds:
  "search_last needle xs i found = r \<Longrightarrow> r = found \<or> (i \<le> r \<and> r < i + int (length xs))"
proof (induction xs arbitrary: i found)
  case Nil
  then show ?case by simp
next
  case (Cons b bs)
  from Cons.prems
  have "search_last needle bs (i + 1) (if occurs_here needle (b # bs) then i else found) = r"
    by simp
  from Cons.IH [OF this] show ?case by (auto split: if_splits)
qed

lemma lastIndexOf_bounds:
  "lastIndexOf buf needle = -1 \<or>
   (0 \<le> lastIndexOf buf needle \<and> lastIndexOf buf needle < int (length buf))"
  using search_last_bounds [OF refl, of needle buf 0 "-1"] by (auto simp: lastIndexOf_def)

lemma indexOf_zlib_start_from_minus_1: "indexOf buf zlib_start (-1) = -1"
proof (cases "buf = []")
  case True
  then show ?thesis by (simp add: indexOf_def)
next
  case False
  then have len: "0 < length buf" by simp
  then have "drop (length buf - 1) buf = [last buf]"
    using False by (metis append_butlast_last_id append_eq_conv_conj length_butlast)
  then have d: "drop (length buf - Suc 0) buf = [last buf]" by simp
  have n: "nat (int (length buf) - 1) = length buf - 1" by simp
  show ?thesis using len
    by (simp add: indexOf_def Let_def n d occurs_here_def zlib_start_def)
qed

lemma decompress_chunks_empty: "decompress_chunks [] 0 = []"
  by (simp add: decompress_chunks.simps)

lemma slice_from_end_empty:
  assumes "e = -1 \<or> (0 \<le> e \<and> e < int (length buf))"
  shows "slice buf (-1) e = []"
  using assms by (auto simp: slice_def adjustOffset_def Let_def)

text \<open>
  C5, as the code has it. \<open>decompress\<close> has no check of the searches. When the input
  contains no \<open>MOD_TITLE\<close>, both the anchor and the zlib start are \<open>-1\<close>, the span
  sliced from the input is empty whatever the input is, and \<open>decompress\<close> returns what
  \<open>inflateSync\<close> returns for the empty buffer: no byte of the container is decoded, and
  \<open>decompress\<close> fails exactly when \<open>inflateSync\<close> rejects the empty buffer.
\<close>

theorem decompress_without_anchor:
  assumes "\<not> contains savefile MOD_TITLE"
  shows "decompress inflateSync savefile = inflateSync []"
proof -
  have m: "lastIndexOf savefile MOD_TITLE = -1"
    using assms by (rule lastIndexOf_absent)
  have "slice savefile (-1) (lastIndexOf savefile sync_flush) = []"
    using lastIndexOf_bounds [of savefile sync_flush] by (rule slice_from_end_empty)
  then show ?thesis
    by (simp add: decompress_def Let_def m indexOf_zlib_start_from_minus_1
          decompress_compressedData_def decompress_chunks_empty)
qed

text \<open>
  C5, as the claim states it, fails: with the reference codec, which like zlib under
  \<open>Z_SYNC_FLUSH\<close> returns the empty blob for the empty input, \<open>decompress\<close> of a
  container without \<open>MOD_TITLE\<close> returns the empty blob instead of failing.
\<close>

theorem decompress_without_anchor_returns:
  "\<not> contains [1, 2, 3, 0x78, 0x9C, 4, 5, 0, 0, 0xFF, 0xFF] MOD_TITLE \<and>
   decompress inflateSync_stored [1, 2, 3, 0x78, 0x9C, 4, 5, 0, 0, 0xFF, 0xFF] = Inr []"
  by code_simp

text \<open>The theorem at a container without the anchor.\<close>

theorem decompress_without_anchor_witness:
  "decompress inflateSync_stored [1, 2, 3, 0x78, 0x9C, 4, 5, 0, 0, 0xFF, 0xFF]
     = inflateSync_stored []"
proof -
  have "\<not> contains [1, 2, 3, 0x78, 0x9C, 4, 5, 0, 0, 0xFF, 0xFF] MOD_TITLE" by code_simp
  from decompress_without_anchor [OF this] show ?thesis .
qed

section \<open>The mutation pass of modifytiles\<close>

lemma readUIntLE_error: "readUIntLE k bin offset = Inl e \<Longrightarrow> e = RangeError"
  by (auto simp: readUIntLE_def split: if_splits)

lemma readIntLE_error: "readIntLE k bin offset = Inl e \<Longrightarrow> e = RangeError"
  by (auto simp: readIntLE_def bindE_def dest: readUIntLE_error split: sum.splits)

lemma modifytiles_buflength_error:
  "modifytiles_buflength bin mindex = Inl e \<Longrightarrow> e = RangeError"
  by (auto simp: modifytiles_buflength_def bindE_def readUInt8_def readUInt32LE_def
           dest: readUIntLE_error split: sum.splits)

lemma copy_error: "copy source target t = Inl e \<Longrightarrow> e = RangeError"
  by (auto simp: copy_def Let_def split: if_splits)

lemma copy_length: "copy source target t = Inr r \<Longrightarrow> length r = length target"
  by (auto simp: copy_def Let_def min_def split: if_splits)

lemma copy_nonneg:
  "0 \<le> t \<Longrightarrow>
   copy source target t
     = Inr (take (nat t) target @ take (length target - nat t) source
            @ drop (nat t + length source) target)"
  by (cases "length source \<le> length target - nat t")
     (simp_all add: copy_def Let_def min_def)

lemma modifytiles_loop_length:
  "modifytiles_loop n callback bin mindex = Inr bin' \<Longrightarrow> length bin' = length bin"
proof (induction n arbitrary: bin mindex)
  case 0
  then show ?case by simp
next
  case (Suc n)
  then show ?case
    by (auto simp: bindE_def Let_def split: sum.splits dest!: copy_length)
qed

lemma modifytiles_loop_error:
  "modifytiles_loop n callback bin mindex = Inl e \<Longrightarrow> e = RangeError"
proof (induction n arbitrary: bin mindex)
  case 0
  then show ?case by simp
next
  case (Suc n)
  then show ?case
    by (auto simp: bindE_def Let_def split: sum.splits
             dest: copy_error modifytiles_buflength_error)
qed

text \<open>
  C4, as the code has it. \<open>modifytiles\<close> compares no lengths. Once the two reads of an
  iteration have succeeded, the buffer returned by the callback, whatever its length, is
  copied into the blob at the offset of the record (as many of its bytes as fit before the
  end of the blob), and the loop goes on at the offset computed from the bytes read before
  the callback ran. The pass never changes the length of the blob, and the only error it
  raises is the RangeError of a read or copy out of range.
\<close>

theorem modifytiles_no_length_check:
  "(0 \<le> mindex \<and> modifytiles_buflength bin mindex = Inr buflength \<longrightarrow>
      modifytiles_loop (Suc n) callback bin mindex
        = modifytiles_loop n callback
            (take (nat mindex) bin
             @ take (length bin - nat mindex) (callback (slice bin mindex (mindex + 55 + buflength)))
             @ drop (nat mindex + length (callback (slice bin mindex (mindex + 55 + buflength)))) bin)
            (mindex + 55 + buflength)) \<and>
   (modifytiles_bin callback bin = Inr bin' \<longrightarrow> length bin' = length bin) \<and>
   (modifytiles_bin callback bin = Inl e \<longrightarrow> e = RangeError)"
proof (intro conjI impI)
  assume "0 \<le> mindex \<and> modifytiles_buflength bin mindex = Inr buflength"
  then show "modifytiles_loop (Suc n) callback bin mindex
        = modifytiles_loop n callback
            (take (nat mindex) bin
             @ take (length bin - nat mindex) (callback (slice bin mindex (mindex + 55 + buflength)))
             @ drop (nat mindex + length (callback (slice bin mindex (mindex + 55 + buflength)))) bin)
            (mindex + 55 + buflength)"
    by (simp add: Let_def copy_nonneg)
next
  assume "modifytiles_bin callback bin = Inr bin'"
  then show "length bin' = length bin"
    by (auto simp: modifytiles_bin_def Let_def bindE_def split: sum.splits
             dest: modifytiles_loop_length)
next
  assume "modifytiles_bin callback bin = Inl e"
  then show "e = RangeError"
    by (auto simp: modifytiles_bin_def Let_def bindE_def readInt32LE_def split: sum.splits
             dest: modifytiles_loop_error readIntLE_error)
qed

text \<open>
  C4, as the claim states it, fails: a callback that returns 60 bytes for the 55-byte
  record it is given makes the pass return normally, having overwritten the record and the
  5 bytes after it.
\<close>

theorem modifytiles_writes_longer_buffer:
  "slice blob_plain_record 16 (16 + 55) = replicate 55 0 \<and>
   modifytiles_bin (\<lambda>tilebuf. replicate (length tilebuf + 5) 0xFF) blob_plain_record
     = Inr (searchBuffer @ [1, 0, 0, 0] @ replicate 60 0xFF)"
  by code_simp

text \<open>The theorem at the same blob and callback.\<close>

theorem modifytiles_no_length_check_witness:
  "modifytiles_loop (Suc 0) (\<lambda>tilebuf. replicate (length tilebuf + 5) 0xFF) blob_plain_record 16
     = Inr (searchBuffer @ [1, 0, 0, 0] @ replicate 60 0xFF) \<and>
   length (searchBuffer @ [1, 0, 0, 0] @ replicate 60 0xFF) = length blob_plain_record"
proof -
  have b: "modifytiles_buflength blob_plain_record 16 = Inr 0" by code_simp
  have r: "modifytiles_bin (\<lambda>tilebuf. replicate (length tilebuf + 5) 0xFF) blob_plain_record
     = Inr (searchBuffer @ [1, 0, 0, 0] @ replicate 60 0xFF)" by code_simp
  have e: "modifytiles_loop 0 (\<lambda>tilebuf. replicate (length tilebuf + 5) 0xFF)
            (take (nat 16) blob_plain_record
             @ take (length blob_plain_record - nat 16)
                 (replicate (length (slice blob_plain_record 16 (16 + 55 + 0)) + 5) 0xFF)
             @ drop (nat 16 + length (replicate (length (slice blob_plain_record 16 (16 + 55 + 0)) + 5) (0xFF::byte)))
                 blob_plain_record)
            (16 + 55 + 0)
          = Inr (searchBuffer @ [1, 0, 0, 0] @ replicate 60 0xFF)" by code_simp
  from modifytiles_no_length_check
         [of 16 blob_plain_record 0 0 "\<lambda>tilebuf. replicate (length tilebuf + 5) 0xFF"
             "searchBuffer @ [1, 0, 0, 0] @ replicate 60 0xFF" RangeError]
  show ?thesis
    using b r e by simp
qed

section \<open>A blob without the table marker\<close>

text \<open>
  C6, as the code has it. Neither \<open>modifytiles\<close> nor \<open>savetomapjson\<close> checks the
  result of the search for the table marker. On a blob that does not contain the marker the
  search gives \<open>-1\<close>, so the count is read from offset 11 and the records from offset 15
  on: both passes run on whatever bytes are there, and fail (with the RangeError of the
  read) when the blob has fewer than 15 bytes.
\<close>

theorem missing_table_marker_reads_offset_11:
  assumes "\<not> contains bin searchBuffer"
  shows "modifytiles_bin callback bin
           = bindE (readInt32LE bin 11) (\<lambda>tiles. modifytiles_loop (nat tiles) callback bin 15) \<and>
         savetomapjson_bin bin
           = bindE (readInt32LE bin 11) (\<lambda>tiles. savetomapjson_loop (nat tiles) bin tiles 0 15) \<and>
         savetomapjson_v1_bin bin
           = bindE (readInt32LE bin 11) (\<lambda>tiles. savetomapjson_v1_loop (nat tiles) bin tiles 0 15) \<and>
         (length bin < 15 \<longrightarrow>
            modifytiles_bin callback bin = Inl RangeError \<and> savetomapjson_bin bin = Inl RangeError
            \<and> savetomapjson_v1_bin bin = Inl RangeError)"
proof -
  have m: "indexOf bin searchBuffer 0 = -1"
    using assms by (rule indexOf_absent)
  have a: "modifytiles_bin callback bin
           = bindE (readInt32LE bin 11) (\<lambda>tiles. modifytiles_loop (nat tiles) callback bin 15)"
    by (simp add: modifytiles_bin_def m)
  have b: "savetomapjson_bin bin
           = bindE (readInt32LE bin 11) (\<lambda>tiles. savetomapjson_loop (nat tiles) bin tiles 0 15)"
    by (simp add: savetomapjson_bin_def m)
  have c: "savetomapjson_v1_bin bin
           = bindE (readInt32LE bin 11) (\<lambda>tiles. savetomapjson_v1_loop (nat tiles) bin tiles 0 15)"
    by (simp add: savetomapjson_v1_bin_def m)
  have "length bin < 15 \<longrightarrow>
           modifytiles_bin callback bin = Inl RangeError \<and> savetomapjson_bin bin = Inl RangeError
           \<and> savetomapjson_v1_bin bin = Inl RangeError"
    unfolding a b c by (simp add: readInt32LE_def readIntLE_def readUIntLE_def in_range_def)
  with a b c show ?thesis by simp
qed

text \<open>
  C6, as the claim states it, fails: on a blob without the marker whose bytes 11 to 14 hold
  the number 1, \<open>modifytiles\<close> rewrites the 55 bytes from offset 15 on; and on 15 zero
  bytes \<open>savetomapjson\<close> returns an empty table.
\<close>

theorem missing_table_marker_proceeds:
  "\<not> contains blob_no_marker searchBuffer \<and>
   modifytiles_bin (\<lambda>tilebuf. replicate (length tilebuf) 0xFF) blob_no_marker
     = Inr (replicate 11 0 @ [1, 0, 0, 0] @ replicate 55 0xFF) \<and>
   \<not> contains (replicate 15 0) searchBuffer \<and>
   savetomapjson_bin (replicate 15 0) = Inr [] \<and>
   savetomapjson_v1_bin (replicate 15 0) = Inr []"
  by code_simp

text \<open>The theorem at the first of these blobs and at a blob of 3 bytes.\<close>

theorem missing_table_marker_witness:
  "modifytiles_bin (\<lambda>tilebuf. replicate (length tilebuf) 0xFF) blob_no_marker
     = Inr (replicate 11 0 @ [1, 0, 0, 0] @ replicate 55 0xFF) \<and>
   savetomapjson_bin [1, 2, 3] = Inl RangeError"
proof -
  have n1: "\<not> contains blob_no_marker searchBuffer" by code_simp
  have n2: "\<not> contains [1, 2, 3] searchBuffer" by code_simp
  have r: "bindE (readInt32LE blob_no_marker 11)
             (\<lambda>tiles. modifytiles_loop (nat tiles) (\<lambda>tilebuf. replicate (length tilebuf) 0xFF)
                         blob_no_marker 15)
           = Inr (replicate 11 0 @ [1, 0, 0, 0] @ replicate 55 0xFF)"
    by code_simp
  have "length [1, 2, 3 :: byte] < 15" by simp
  with missing_table_marker_reads_offset_11 [OF n2, of id]
  have short: "savetomapjson_bin [1, 2, 3] = Inl RangeError" by blast
  from missing_table_marker_reads_offset_11
         [OF n1, of "\<lambda>tilebuf. replicate (length tilebuf) 0xFF"] r
  have "modifytiles_bin (\<lambda>tilebuf. replicate (length tilebuf) 0xFF) blob_no_marker
     = Inr (replicate 11 0 @ [1, 0, 0, 0] @ replicate 55 0xFF)" by metis
  with short show ?thesis by blast
qed

section \<open>The tile count and the grid coordinates\<close>

lemma bindE_eq_Inr: "(bindE m f = Inr r) = (\<exists>v. m = Inr v \<and> f v = Inr r)"
  by (cases m) simp_all

lemma savetomapjson_obj_unknown:
  "mapsizedata tiles = None \<Longrightarrow> savetomapjson_obj bin tiles i mindex = Inl TypeError"
  by (simp add: savetomapjson_obj_def mapsizedata_x_def)

lemma readIntLE_in_range: "readIntLE k bin offset = Inr v \<Longrightarrow> in_range bin offset k"
  by (auto simp: readIntLE_def readUIntLE_def bindE_eq_Inr split: if_splits)

lemma readUIntLE_in_range: "readUIntLE k bin offset = Inr v \<Longrightarrow> in_range bin offset k"
  by (auto simp: readUIntLE_def split: if_splits)

lemma savetomapjson_obj_Inr:
  assumes "savetomapjson_obj bin tiles i mindex = Inr obj"
  shows "\<exists>w h. mapsizedata tiles = Some (w, h) \<and> tile_x obj = i mod w \<and> tile_y obj = i div w"
    and "readUInt8 bin (mindex + 49) = Inr (flags2 obj)"
    and "readUInt8 bin (mindex + 51) = Inr (flags4 obj)"
    and "0 \<le> mindex" and "nat mindex + 55 \<le> length bin"
proof -
  from assms show "\<exists>w h. mapsizedata tiles = Some (w, h) \<and> tile_x obj = i mod w \<and> tile_y obj = i div w"
    and "readUInt8 bin (mindex + 49) = Inr (flags2 obj)"
    and "readUInt8 bin (mindex + 51) = Inr (flags4 obj)"
    by (auto simp: savetomapjson_obj_def bindE_eq_Inr mapsizedata_x_def split: option.splits)
  from assms obtain a b where "readInt16LE bin mindex = Inr a" "readUInt8 bin (mindex + 54) = Inr b"
    by (auto simp: savetomapjson_obj_def bindE_eq_Inr)
  then have "in_range bin mindex 2" "in_range bin (mindex + 54) 1"
    by (auto simp: readInt16LE_def readUInt8_def dest: readIntLE_in_range readUIntLE_in_range)
  then show "0 \<le> mindex" and "nat mindex + 55 \<le> length bin"
    by (auto simp: in_range_def)
qed

lemma savetomapjson_tile_header:
  assumes "savetomapjson_tile bin tiles i mindex = Inr (obj, mindex')"
  shows "\<exists>h. savetomapjson_obj bin tiles i mindex = Inr h \<and>
             tile_x obj = tile_x h \<and> tile_y obj = tile_y h \<and>
             flags2 obj = flags2 h \<and> flags4 obj = flags4 h"
  using assms
  by (auto simp: savetomapjson_tile_def Let_def bindE_eq_Inr header.defs tile.defs
           split: if_splits prod.splits)

lemma savetomapjson_tile_unknown:
  "mapsizedata tiles = None \<Longrightarrow> savetomapjson_tile bin tiles i mindex = Inl TypeError"
  by (simp add: savetomapjson_tile_def savetomapjson_obj_unknown)

lemma savetomapjson_tile_coords:
  assumes "savetomapjson_tile bin tiles i mindex = Inr (obj, mindex')"
    and "mapsizedata tiles = Some (w, h)"
  shows "tile_x obj = i mod w \<and> tile_y obj = i div w"
  using savetomapjson_tile_header [OF assms(1)] assms(2)
  by (auto dest!: savetomapjson_obj_Inr(1))

lemma savetomapjson_loop_coords:
  assumes "savetomapjson_loop n bin tiles i mindex = Inr ts"
    and "mapsizedata tiles = Some (w, h)"
  shows "length ts = n \<and>
         (\<forall>k<n. tile_x (ts ! k) = (i + int k) mod w \<and> tile_y (ts ! k) = (i + int k) div w)"
  using assms(1)
proof (induction n arbitrary: i mindex ts)
  case 0
  then show ?case by simp
next
  case (Suc n)
  from Suc.prems obtain obj mindex' rest
    where t: "savetomapjson_tile bin tiles i mindex = Inr (obj, mindex')"
      and r: "savetomapjson_loop n bin tiles (i + 1) mindex' = Inr rest"
      and ts: "ts = obj # rest"
    by (auto simp: bindE_eq_Inr)
  from Suc.IH [OF r]
  have len: "length rest = n"
    and rest: "\<And>k. k < n \<Longrightarrow> tile_x (rest ! k) = (i + 1 + int k) mod w \<and>
                                tile_y (rest ! k) = (i + 1 + int k) div w"
    by auto
  have "tile_x (ts ! k) = (i + int k) mod w \<and> tile_y (ts ! k) = (i + int k) div w"
    if "k < Suc n" for k
  proof (cases k)
    case 0
    with savetomapjson_tile_coords [OF t assms(2)] ts show ?thesis by simp
  next
    case (Suc j)
    have "i + 1 + int j = i + int (Suc j)" by simp
    with Suc that rest [of j] ts show ?thesis by (simp del: of_nat_Suc)
  qed
  with len ts show ?case by simp
qed

lemma mapsizedata_None:
  "(mapsizedata tiles = None) = (tiles \<notin> {1144, 2280, 3404, 4536, 5760, 6996})"
  by (simp add: mapsizedata_def)

lemma le_uint_zeros: "le_uint (replicate j 0) = 0"
  by (induction j) (simp_all add: le_uint_def)

lemma readUIntLE_zeros:
  assumes "int (length pre) \<le> offset" and "offset + int k \<le> int (length pre) + int m"
  shows "readUIntLE k (pre @ replicate m 0) offset = Inr 0"
proof -
  have "in_range (pre @ replicate m 0) offset k"
    using assms by (simp add: in_range_def)
  moreover have "drop (nat offset) (pre @ replicate m 0) = replicate (m - (nat offset - length pre)) 0"
    using assms by simp
  ultimately show ?thesis
    by (simp add: readUIntLE_def le_uint_zeros del: drop_append)
qed

lemma readIntLE_zeros:
  assumes "int (length pre) \<le> offset" and "offset + int k \<le> int (length pre) + int m"
  shows "readIntLE k (pre @ replicate m 0) offset = Inr 0"
  using readUIntLE_zeros [OF assms] by (simp add: readIntLE_def)

lemma zero_records_tile:
  assumes "int (length pre) \<le> mindex" and "mindex + 55 \<le> int (length pre) + int m"
    and "mapsizedata tiles = Some (w, h)"
  shows "\<exists>obj. savetomapjson_tile (pre @ replicate m 0) tiles i mindex = Inr (obj, mindex + 55)"
  using assms
  by (simp add: savetomapjson_tile_def savetomapjson_obj_def mapsizedata_x_def Let_def
        readUInt8_def readInt8_def readUInt16LE_def readInt16LE_def readUInt32LE_def
        readInt32LE_def readUIntLE_zeros readIntLE_zeros)

lemma zero_records_loop:
  assumes "mapsizedata tiles = Some (w, h)"
  shows "int (length pre) \<le> mindex \<Longrightarrow> mindex + 55 * int n \<le> int (length pre) + int m \<Longrightarrow>
         \<exists>ts. savetomapjson_loop n (pre @ replicate m 0) tiles i mindex = Inr ts"
proof (induction n arbitrary: i mindex)
  case 0
  then show ?case by simp
next
  case (Suc n)
  from Suc.prems
  obtain obj where t: "savetomapjson_tile (pre @ replicate m 0) tiles i mindex = Inr (obj, mindex + 55)"
    using zero_records_tile [OF _ _ assms, of pre mindex m i] by auto
  from Suc.prems
  obtain ts where "savetomapjson_loop n (pre @ replicate m 0) tiles (i + 1) (mindex + 55) = Inr ts"
    using Suc.IH [of "mindex + 55" "i + 1"] by auto
  with t show ?case by simp
qed

lemma blob_1144_records_count:
  "readInt32LE blob_1144_records (indexOf blob_1144_records searchBuffer 0 + 12) = Inr 1144"
proof -
  have "indexOf blob_1144_records searchBuffer 0 = 0"
    by (simp add: indexOf_def blob_1144_records_def searchBuffer_def occurs_here_def)
  then show ?thesis
    by (simp add: readInt32LE_def readIntLE_def readUIntLE_def in_range_def le_uint_def
          blob_1144_records_def searchBuffer_def)
qed

lemma blob_1144_records_decodes: "\<exists>ts. savetomapjson_bin blob_1144_records = Inr ts"
proof -
  have eq: "blob_1144_records = (searchBuffer @ [0x78, 0x04, 0, 0]) @ replicate (1144 * 55) 0"
    by (simp add: blob_1144_records_def)
  have m: "mapsizedata 1144 = Some (44, 26)" by (simp add: mapsizedata_def)
  have i: "indexOf blob_1144_records searchBuffer 0 = 0"
    by (simp add: indexOf_def blob_1144_records_def searchBuffer_def occurs_here_def)
  have "\<exists>ts. savetomapjson_loop 1144 blob_1144_records 1144 0 16 = Inr ts"
    unfolding eq by (rule zero_records_loop [OF m]) (simp_all add: searchBuffer_def)
  then show ?thesis
    using blob_1144_records_count
    by (simp add: savetomapjson_bin_def i)
qed

lemma savetomapjson_v1_tile_error:
  "mapsizedata tiles = None \<Longrightarrow>
   savetomapjson_v1_tile bin tiles i mindex = Inl TypeError \<or>
   savetomapjson_v1_tile bin tiles i mindex = Inl RangeError"
  by (cases "in_range bin (mindex + 49) 1"; cases "in_range bin (mindex + 51) 1")
     (simp_all add: savetomapjson_v1_tile_def mapsizedata_x_def Let_def bindE_def
        readUInt8_def readUIntLE_def)

lemma savetomapjson_v1_tile_coords:
  assumes "savetomapjson_v1_tile bin tiles i mindex = Inr (obj, mindex')"
    and "mapsizedata tiles = Some (w, h)"
  shows "v1_x obj = i mod w \<and> v1_y obj = i div w"
  using assms
  by (auto simp: savetomapjson_v1_tile_def Let_def bindE_eq_Inr mapsizedata_x_def)

lemma savetomapjson_v1_loop_coords:
  assumes "savetomapjson_v1_loop n bin tiles i mindex = Inr ts"
    and "mapsizedata tiles = Some (w, h)"
  shows "length ts = n \<and>
         (\<forall>k<n. v1_x (ts ! k) = (i + int k) mod w \<and> v1_y (ts ! k) = (i + int k) div w)"
  using assms(1)
proof (induction n arbitrary: i mindex ts)
  case 0
  then show ?case by simp
next
  case (Suc n)
  from Suc.prems obtain obj mindex' rest
    where t: "savetomapjson_v1_tile bin tiles i mindex = Inr (obj, mindex')"
      and r: "savetomapjson_v1_loop n bin tiles (i + 1) mindex' = Inr rest"
      and ts: "ts = obj # rest"
    by (auto simp: bindE_eq_Inr)
  from Suc.IH [OF r]
  have len: "length rest = n"
    and rest: "\<And>k. k < n \<Longrightarrow> v1_x (rest ! k) = (i + 1 + int k) mod w \<and>
                                v1_y (rest ! k) = (i + 1 + int k) div w"
    by auto
  have "v1_x (ts ! k) = (i + int k) mod w \<and> v1_y (ts ! k) = (i + int k) div w"
    if "k < Suc n" for k
  proof (cases k)
    case 0
    with savetomapjson_v1_tile_coords [OF t assms(2)] ts show ?thesis by simp
  next
    case (Suc j)
    have "i + 1 + int j = i + int (Suc j)" by simp
    with Suc that rest [of j] ts show ?thesis by (simp del: of_nat_Suc)
  qed
  with len ts show ?case by simp
qed

lemma zero_records_v1_tile:
  assumes "int (length pre) \<le> mindex" and "mindex + 55 \<le> int (length pre) + int m"
    and "mapsizedata tiles = Some (w, h)"
  shows "\<exists>obj. savetomapjson_v1_tile (pre @ replicate m 0) tiles i mindex = Inr (obj, mindex + 55)"
  using assms
  by (simp add: savetomapjson_v1_tile_def mapsizedata_x_def Let_def
        readUInt8_def readInt8_def readUInt16LE_def readInt16LE_def readUInt32LE_def
        readInt32LE_def readUIntLE_zeros readIntLE_zeros)

lemma zero_records_v1_loop:
  assumes "mapsizedata tiles = Some (w, h)"
  shows "int (length pre) \<le> mindex \<Longrightarrow> mindex + 55 * int n \<le> int (length pre) + int m \<Longrightarrow>
         \<exists>ts. savetomapjson_v1_loop n (pre @ replicate m 0) tiles i mindex = Inr ts"
proof (induction n arbitrary: i mindex)
  case 0
  then show ?case by simp
next
  case (Suc n)
  from Suc.prems
  obtain obj where t: "savetomapjson_v1_tile (pre @ replicate m 0) tiles i mindex = Inr (obj, mindex + 55)"
    using zero_records_v1_tile [OF _ _ assms, of pre mindex m i] by auto
  from Suc.prems
  obtain ts where "savetomapjson_v1_loop n (pre @ replicate m 0) tiles (i + 1) (mindex + 55) = Inr ts"
    using Suc.IH [of "mindex + 55" "i + 1"] by auto
  with t show ?case by simp
qed

lemma blob_1144_records_decodes_v1: "\<exists>ts. savetomapjson_v1_bin blob_1144_records = Inr ts"
proof -
  have eq: "blob_1144_records = (searchBuffer @ [0x78, 0x04, 0, 0]) @ replicate (1144 * 55) 0"
    by (simp add: blob_1144_records_def)
  have m: "mapsizedata 1144 = Some (44, 26)" by (simp add: mapsizedata_def)
  have i: "indexOf blob_1144_records searchBuffer 0 = 0"
    by (simp add: indexOf_def blob_1144_records_def searchBuffer_def occurs_here_def)
  have "\<exists>ts. savetomapjson_v1_loop 1144 blob_1144_records 1144 0 16 = Inr ts"
    unfolding eq by (rule zero_records_v1_loop [OF m]) (simp_all add: searchBuffer_def)
  then show ?thesis
    using blob_1144_records_count
    by (simp add: savetomapjson_v1_bin_def i)
qed

text \<open>
  C7, as the code has it. Let \<open>tiles\<close> be the count that \<open>savetomapjson\<close> reads. When
  it is positive and not a key of \<open>mapsizedata\<close>, the first iteration of the loop fails:
  with the TypeError of \<open>mapsizedata[tiles].x\<close> in the revision with four sub-buffers,
  and in the other revision with that TypeError or with the RangeError of the two reads
  that come before the lookup. When it is zero or negative, which is not
  a key either, the loop body never runs and the result is the empty table. When it is a
  key, with row width \<open>w\<close>, a successful decoding yields \<open>tiles\<close> records, and record
  \<open>i\<close> has \<open>x = i mod w\<close> and \<open>y = i div w\<close>, in both revisions; the row width for
  2280 is 60.
\<close>

theorem unsupported_map_size:
  assumes "readInt32LE bin (indexOf bin searchBuffer 0 + 12) = Inr tiles"
  shows "(0 < tiles \<and> tiles \<notin> {1144, 2280, 3404, 4536, 5760, 6996}
            \<longrightarrow> savetomapjson_bin bin = Inl TypeError
                \<and> (savetomapjson_v1_bin bin = Inl TypeError
                     \<or> savetomapjson_v1_bin bin = Inl RangeError)) \<and>
         (tiles \<le> 0 \<longrightarrow> savetomapjson_bin bin = Inr [] \<and> savetomapjson_v1_bin bin = Inr []) \<and>
         (\<forall>w h ts. mapsizedata tiles = Some (w, h) \<and> savetomapjson_bin bin = Inr ts \<longrightarrow>
            length ts = nat tiles \<and>
            (\<forall>i<nat tiles. tile_x (ts ! i) = int i mod w \<and> tile_y (ts ! i) = int i div w)) \<and>
         (\<forall>w h ts. mapsizedata tiles = Some (w, h) \<and> savetomapjson_v1_bin bin = Inr ts \<longrightarrow>
            length ts = nat tiles \<and>
            (\<forall>i<nat tiles. v1_x (ts ! i) = int i mod w \<and> v1_y (ts ! i) = int i div w)) \<and>
         mapsizedata 2280 = Some (60, 38)"
proof -
  have unknown: "savetomapjson_bin bin = Inl TypeError \<and>
      (savetomapjson_v1_bin bin = Inl TypeError \<or> savetomapjson_v1_bin bin = Inl RangeError)"
    if a: "0 < tiles \<and> tiles \<notin> {1144, 2280, 3404, 4536, 5760, 6996}"
  proof -
    from a have "0 < nat tiles" by simp
    then obtain m where m: "nat tiles = Suc m" using gr0_implies_Suc by blast
    from a have none: "mapsizedata tiles = None" by (simp add: mapsizedata_None)
    have "savetomapjson_v1_bin bin
            = bindE (savetomapjson_v1_tile bin tiles 0 (indexOf bin searchBuffer 0 + 16))
                (\<lambda>(obj, mindex'). bindE (savetomapjson_v1_loop m bin tiles 1 mindex')
                   (\<lambda>rest. Inr (obj # rest)))"
      using assms by (simp add: savetomapjson_v1_bin_def m)
    with savetomapjson_v1_tile_error [OF none, of bin 0 "indexOf bin searchBuffer 0 + 16"]
    have "savetomapjson_v1_bin bin = Inl TypeError \<or> savetomapjson_v1_bin bin = Inl RangeError"
      by (auto simp: bindE_def)
    moreover have "savetomapjson_bin bin = Inl TypeError"
      using assms none by (simp add: savetomapjson_bin_def m savetomapjson_tile_unknown)
    ultimately show ?thesis by blast
  qed
  have none: "savetomapjson_bin bin = Inr [] \<and> savetomapjson_v1_bin bin = Inr []" if "tiles \<le> 0"
    using that assms by (simp add: savetomapjson_bin_def savetomapjson_v1_bin_def)
  have known: "length ts = nat tiles \<and>
        (\<forall>i<nat tiles. tile_x (ts ! i) = int i mod w \<and> tile_y (ts ! i) = int i div w)"
    if b: "mapsizedata tiles = Some (w, h) \<and> savetomapjson_bin bin = Inr ts" for w h ts
  proof -
    from b have "savetomapjson_loop (nat tiles) bin tiles 0 (indexOf bin searchBuffer 0 + 16) = Inr ts"
      using assms by (simp add: savetomapjson_bin_def)
    from savetomapjson_loop_coords [OF this] b show ?thesis by simp
  qed
  have known_v1: "length ts = nat tiles \<and>
        (\<forall>i<nat tiles. v1_x (ts ! i) = int i mod w \<and> v1_y (ts ! i) = int i div w)"
    if b: "mapsizedata tiles = Some (w, h) \<and> savetomapjson_v1_bin bin = Inr ts" for w h ts
  proof -
    from b have "savetomapjson_v1_loop (nat tiles) bin tiles 0 (indexOf bin searchBuffer 0 + 16) = Inr ts"
      using assms by (simp add: savetomapjson_v1_bin_def)
    from savetomapjson_v1_loop_coords [OF this] b show ?thesis by simp
  qed
  have row: "mapsizedata 2280 = Some (60, 38)" by (simp add: mapsizedata_def)
  from unknown none known known_v1 row show ?thesis by blast
qed

text \<open>
  C7, as the claim states it, fails: the count 0 is not a key of the table, and the blob
  with the marker and the count 0 is decoded to the empty table.
\<close>

theorem unrecognized_count_0_decodes:
  "readInt32LE blob_count_0 (indexOf blob_count_0 searchBuffer 0 + 12) = Inr 0 \<and>
   mapsizedata 0 = None \<and>
   savetomapjson_bin blob_count_0 = Inr [] \<and>
   savetomapjson_v1_bin blob_count_0 = Inr []"
  by code_simp

text \<open>
  The theorem at the count 5, at the count 0, and at the blob of 1144 zero records, whose
  record 100 is at column 12 of row 2.
\<close>

theorem unsupported_map_size_witness:
  "savetomapjson_bin blob_count_5 = Inl TypeError \<and>
   savetomapjson_v1_bin blob_count_5 = Inl TypeError \<and>
   savetomapjson_bin blob_count_0 = Inr [] \<and>
   savetomapjson_v1_bin blob_count_0 = Inr [] \<and>
   (\<exists>ts. savetomapjson_bin blob_1144_records = Inr ts \<and> length ts = 1144 \<and>
      tile_x (ts ! 100) = 12 \<and> tile_y (ts ! 100) = 2) \<and>
   (\<exists>ts. savetomapjson_v1_bin blob_1144_records = Inr ts \<and> length ts = 1144 \<and>
      v1_x (ts ! 100) = 12 \<and> v1_y (ts ! 100) = 2)"
proof -
  have c5: "readInt32LE blob_count_5 (indexOf blob_count_5 searchBuffer 0 + 12) = Inr 5"
    by code_simp
  have c0: "readInt32LE blob_count_0 (indexOf blob_count_0 searchBuffer 0 + 12) = Inr 0"
    by code_simp
  have v5: "savetomapjson_v1_bin blob_count_5 = Inl TypeError" by code_simp
  obtain ts where ts: "savetomapjson_bin blob_1144_records = Inr ts"
    using blob_1144_records_decodes by blast
  obtain us where us: "savetomapjson_v1_bin blob_1144_records = Inr us"
    using blob_1144_records_decodes_v1 by blast
  have m: "mapsizedata 1144 = Some (44, 26)" by (simp add: mapsizedata_def)
  from unsupported_map_size [OF blob_1144_records_count] m ts
  have a: "length ts = 1144 \<and> tile_x (ts ! 100) = int 100 mod 44 \<and> tile_y (ts ! 100) = int 100 div 44"
    by auto
  from unsupported_map_size [OF blob_1144_records_count] m us
  have b: "length us = 1144 \<and> v1_x (us ! 100) = int 100 mod 44 \<and> v1_y (us ! 100) = int 100 div 44"
    by auto
  from a b ts us v5 unsupported_map_size [OF c5] unsupported_map_size [OF c0]
  show ?thesis by simp
qed

section \<open>The sub-buffers of a decoded record\<close>














section \<open>The payload round trip\<close>

lemma search_first_eq:
  "k < length xs \<Longrightarrow> occurs_here needle (drop k xs) \<Longrightarrow>
   (\<forall>j<k. \<not> occurs_here needle (drop j xs)) \<Longrightarrow>
   search_first needle xs i = i + int k"
proof (induction xs arbitrary: i k)
  case Nil
  then show ?case by simp
next
  case (Cons b bs)
  show ?case
  proof (cases k)
    case 0
    with Cons.prems show ?thesis by simp
  next
    case (Suc k')
    with Cons.prems have here: "\<not> occurs_here needle (b # bs)" by force
    have "\<forall>j<k'. \<not> occurs_here needle (drop j bs)"
    proof (intro allI impI)
      fix j assume "j < k'"
      then have "\<not> occurs_here needle (drop (Suc j) (b # bs))"
        using Cons.prems(3) Suc by (metis Suc_less_eq)
      then show "\<not> occurs_here needle (drop j bs)" by simp
    qed
    with Cons.IH [of k' "i + 1"] Cons.prems Suc
    have "search_first needle bs (i + 1) = i + 1 + int k'" by simp
    with here Suc show ?thesis by simp
  qed
qed

lemma search_first_found:
  "search_first needle xs i = r \<Longrightarrow> r \<noteq> -1 \<Longrightarrow>
   \<exists>k<length xs. r = i + int k \<and> occurs_here needle (drop k xs) \<and>
                  (\<forall>j<k. \<not> occurs_here needle (drop j xs))"
proof (induction xs arbitrary: i)
  case Nil
  then show ?case by simp
next
  case (Cons b bs)
  show ?case
  proof (cases "occurs_here needle (b # bs)")
    case True
    with Cons.prems have "r = i + int 0" by simp
    with True show ?thesis by (intro exI [of _ 0]) simp
  next
    case False
    with Cons.prems have "search_first needle bs (i + 1) = r" by simp
    from Cons.IH [OF this Cons.prems(2)]
    obtain k where k: "k < length bs" "r = i + 1 + int k" "occurs_here needle (drop k bs)"
      "\<forall>j<k. \<not> occurs_here needle (drop j bs)" by blast
    have "\<forall>j<Suc k. \<not> occurs_here needle (drop j (b # bs))"
    proof (intro allI impI)
      fix j assume "j < Suc k"
      then show "\<not> occurs_here needle (drop j (b # bs))"
        using False k(4) by (cases j) simp_all
    qed
    with k show ?thesis by (intro exI [of _ "Suc k"]) simp
  qed
qed

lemma search_last_eq:
  "k < length xs \<Longrightarrow> occurs_here needle (drop k xs) \<Longrightarrow>
   (\<forall>j. k < j \<and> j < length xs \<longrightarrow> \<not> occurs_here needle (drop j xs)) \<Longrightarrow>
   search_last needle xs i found = i + int k"
proof (induction xs arbitrary: i k found)
  case Nil
  then show ?case by simp
next
  case (Cons b bs)
  show ?case
  proof (cases k)
    case 0
    have "\<forall>j<length bs. \<not> occurs_here needle (drop j bs)"
    proof (intro allI impI)
      fix j assume "j < length bs"
      then show "\<not> occurs_here needle (drop j bs)"
        using Cons.prems(3) [rule_format, of "Suc j"] 0 by simp
    qed
    from search_last_none [OF this] Cons.prems(2) 0 show ?thesis by simp
  next
    case (Suc k')
    have "\<forall>j. k' < j \<and> j < length bs \<longrightarrow> \<not> occurs_here needle (drop j bs)"
    proof (intro allI impI)
      fix j assume "k' < j \<and> j < length bs"
      then show "\<not> occurs_here needle (drop j bs)"
        using Cons.prems(3) [rule_format, of "Suc j"] Suc by simp
    qed
    with Cons.IH [of k' "i + 1"] Cons.prems Suc
    show ?thesis by simp
  qed
qed

lemma search_last_found:
  "search_last needle xs i found = r \<Longrightarrow> r \<noteq> found \<Longrightarrow>
   \<exists>k<length xs. r = i + int k \<and> occurs_here needle (drop k xs) \<and>
       (\<forall>j. k < j \<and> j < length xs \<longrightarrow> \<not> occurs_here needle (drop j xs))"
proof (induction xs arbitrary: i found)
  case Nil
  then show ?case by simp
next
  case (Cons b bs)
  let ?f = "if occurs_here needle (b # bs) then i else found"
  from Cons.prems have rec: "search_last needle bs (i + 1) ?f = r" by simp
  show ?case
  proof (cases "r = ?f")
    case True
    with Cons.prems(2) have here: "occurs_here needle (b # bs)" and r: "r = i"
      by (auto split: if_splits)
    have none: "\<forall>j<length bs. \<not> occurs_here needle (drop j bs)"
    proof (rule ccontr)
      assume "\<not> (\<forall>j<length bs. \<not> occurs_here needle (drop j bs))"
      then obtain j where j: "j < length bs" "occurs_here needle (drop j bs)" by blast
      define m where "m = (GREATEST j. j < length bs \<and> occurs_here needle (drop j bs))"
      have m: "m < length bs \<and> occurs_here needle (drop m bs)"
        unfolding m_def
        by (rule GreatestI_nat [where b = "length bs"]) (use j in auto)
      have later: "\<forall>j. m < j \<and> j < length bs \<longrightarrow> \<not> occurs_here needle (drop j bs)"
      proof (intro allI impI notI)
        fix j' assume a: "m < j' \<and> j' < length bs" and o: "occurs_here needle (drop j' bs)"
        have "j' \<le> m" unfolding m_def
          by (rule Greatest_le_nat [where b = "length bs"]) (use a o in auto)
        with a show False by simp
      qed
      from search_last_eq [of m bs needle "i + 1" ?f] m later rec
      have "r = i + 1 + int m" by simp
      with r show False by simp
    qed
    have "\<forall>j. 0 < j \<and> j < length (b # bs) \<longrightarrow> \<not> occurs_here needle (drop j (b # bs))"
    proof (intro allI impI)
      fix j assume "0 < j \<and> j < length (b # bs)"
      then show "\<not> occurs_here needle (drop j (b # bs))"
        using none by (cases j) simp_all
    qed
    with here r show ?thesis by (intro exI [of _ 0]) simp
  next
    case False
    from Cons.IH [OF rec False]
    obtain k where k: "k < length bs" "r = i + 1 + int k" "occurs_here needle (drop k bs)"
      "\<forall>j. k < j \<and> j < length bs \<longrightarrow> \<not> occurs_here needle (drop j bs)" by blast
    have "\<forall>j. Suc k < j \<and> j < length (b # bs) \<longrightarrow> \<not> occurs_here needle (drop j (b # bs))"
    proof (intro allI impI)
      fix j assume "Suc k < j \<and> j < length (b # bs)"
      then show "\<not> occurs_here needle (drop j (b # bs))"
        using k(4) by (cases j) simp_all
    qed
    with k show ?thesis by (intro exI [of _ "Suc k"]) simp
  qed
qed

lemma framed_closed:
  "framed c = concat (map (\<lambda>k. (if k = 0 then []
                              else int32le (int (length (take 65536 (drop (k * 65536) c)))))
                            @ take 65536 (drop (k * 65536) c))
                  [0 ..< (length c + 65535) div 65536])"
  by (simp add: framed_def finalBuffer_closed)

lemma finalBuffer_framed: "recompress_finalBuffer c = Inr (framed c)"
  by (simp add: framed_def finalBuffer_closed)

lemma framed_short: "length c \<le> 65536 \<Longrightarrow> framed c = c"
  by (simp add: framed_def finalBuffer_short)

lemma framed_long:
  assumes "65536 < length c"
  shows "framed c = take 65536 c @ int32le (int (length (take 65536 (drop 65536 c))))
                    @ framed (drop 65536 c)"
proof -
  define m' where "m' = (length (drop 65536 c) + 65535) div 65536"
  have m: "(length c + 65535) div 65536 = Suc m'"
    using assms unfolding m'_def by simp
  have pos: "0 < m'" using assms unfolding m'_def by simp
  let ?f = "\<lambda>k. (if k = 0 then []
                  else int32le (int (length (take 65536 (drop (k * 65536) c)))))
                @ take 65536 (drop (k * 65536) c)"
  let ?g = "\<lambda>k. (if k = 0 then []
                  else int32le (int (length (take 65536 (drop (k * 65536) (drop 65536 c))))))
                @ take 65536 (drop (k * 65536) (drop 65536 c))"
  have shift: "?f (Suc k) = int32le (int (length (take 65536 (drop (k * 65536) (drop 65536 c)))))
                            @ take 65536 (drop (k * 65536) (drop 65536 c))" for k
    by (simp add: add.commute)
  have up: "[0 ..< Suc m'] = 0 # map Suc [0 ..< m']"
    by (simp add: map_Suc_upt upt_conv_Cons del: upt_Suc)
  have up': "[0 ..< m'] = 0 # [Suc 0 ..< m']"
    using pos by (simp add: upt_conv_Cons)
  have tail: "map (\<lambda>k. ?f (Suc k)) [Suc 0 ..< m'] = map ?g [Suc 0 ..< m']"
    by (rule map_cong [OF refl]) (simp add: add.commute)
  have "framed c = concat (map ?f [0 ..< Suc m'])"
    unfolding framed_closed m ..
  also have "\<dots> = ?f 0 @ concat (map (\<lambda>k. ?f (Suc k)) [0 ..< m'])"
    unfolding up by (simp add: o_def del: upt_Suc drop_drop length_take)
  also have "\<dots> = take 65536 c @ ?f (Suc 0) @ concat (map (\<lambda>k. ?f (Suc k)) [Suc 0 ..< m'])"
    unfolding up' by (simp del: upt_Suc drop_drop length_take)
  also have "\<dots> = take 65536 c
                    @ int32le (int (length (take 65536 (drop 65536 c))))
                    @ (?g 0 @ concat (map ?g [Suc 0 ..< m']))"
    unfolding tail by (simp del: upt_Suc drop_drop length_take)
  also have "?g 0 @ concat (map ?g [Suc 0 ..< m']) = framed (drop 65536 c)"
    unfolding framed_closed [of "drop 65536 c"] m'_def [symmetric] up'
    by (simp del: upt_Suc drop_drop length_take)
  finally show ?thesis .
qed

lemma decompress_chunks_unfold:
  "decompress_chunks data pos =
     (if pos < length data
      then take 65536 (drop pos data) # decompress_chunks data (pos + 65540)
      else [])"
  using slice_chunk [of data pos 65536]
  by (subst decompress_chunks.simps) (simp add: chunkSize_def add.commute)

lemma compressedData_Nil: "decompress_compressedData [] = []"
  by (simp add: decompress_compressedData_def decompress_chunks_unfold)

lemma decompress_chunks_drop:
  "concat (decompress_chunks data pos) = decompress_compressedData (drop pos data)"
proof (induction "length data - pos" arbitrary: data pos rule: less_induct)
  case less
  show ?case
  proof (cases "pos < length data")
    case False
    then show ?thesis
      by (simp add: decompress_chunks_unfold [of data pos] compressedData_Nil)
  next
    case True
    have l: "concat (decompress_chunks data (pos + 65540))
               = decompress_compressedData (drop (pos + 65540) data)"
      by (rule less.hyps) (use True in simp)
    have r: "concat (decompress_chunks (drop pos data) 65540)
               = decompress_compressedData (drop 65540 (drop pos data))"
      by (rule less.hyps) (use True in simp)
    have "concat (decompress_chunks data pos)
            = take 65536 (drop pos data) @ decompress_compressedData (drop (pos + 65540) data)"
      using True l by (simp add: decompress_chunks_unfold [of data pos])
    moreover have "decompress_compressedData (drop pos data)
            = take 65536 (drop pos data) @ decompress_compressedData (drop 65540 (drop pos data))"
      using True r
      by (simp add: decompress_compressedData_def decompress_chunks_unfold [of "drop pos data" 0])
    ultimately show ?thesis by (simp add: add.commute)
  qed
qed

lemma compressedData_step:
  "data \<noteq> [] \<Longrightarrow>
   decompress_compressedData data
     = take 65536 data @ decompress_compressedData (drop 65540 data)"
  using decompress_chunks_drop [of data 65540]
  by (simp add: decompress_compressedData_def decompress_chunks_unfold [of data 0])

lemma compressedData_short:
  "length data \<le> 65536 \<Longrightarrow> decompress_compressedData data = data"
  by (cases "data = []") (simp_all add: compressedData_Nil compressedData_step)

lemma int32le_length: "length (int32le v) = 4"
  by (simp add: int32le_def)

lemma framed_length_long: "65536 < length c \<Longrightarrow> 65540 < length (framed c)"
proof -
  assume a: "65536 < length c"
  then have "drop 65536 c \<noteq> []" by simp
  then have "framed (drop 65536 c) \<noteq> []"
    by (cases "length (drop 65536 c) \<le> 65536")
       (simp_all add: framed_short framed_long [of "drop 65536 c"] del: length_drop)
  then have "0 < length (framed (drop 65536 c))" by simp
  with a show ?thesis
    by (simp add: framed_long [of c] int32le_length del: length_drop)
qed

lemma unframe_truncated:
  "c \<noteq> [] \<Longrightarrow>
   \<exists>m. length c - 4 \<le> m \<and> m \<le> length c \<and>
       decompress_compressedData (take (length (framed c) - 4) (framed c)) = take m c"
proof (induction "length c" arbitrary: c rule: less_induct)
  case less
  show ?case
  proof (cases "length c \<le> 65536")
    case True
    then have "decompress_compressedData (take (length (framed c) - 4) (framed c))
                 = take (length c - 4) c"
      by (simp add: framed_short compressedData_short)
    then show ?thesis by (intro exI [of _ "length c - 4"]) simp
  next
    case False
    define c' where "c' = drop 65536 c"
    define p where "p = int32le (int (length (take 65536 c')))"
    have long: "65536 < length c" using False by simp
    have fr: "framed c = take 65536 c @ p @ framed c'"
      unfolding p_def c'_def by (rule framed_long [OF long])
    have lp: "length p = 4" by (simp add: p_def int32le_length)
    have lt: "length (take 65536 c) = 65536" using long by simp
    have ne: "take 65536 c \<noteq> []" using lt by auto
    have c'_ne: "c' \<noteq> []" and c'_len: "length c' = length c - 65536" "length c' < length c"
      using long by (simp_all add: c'_def)
    have trunc: "take (length (framed c) - 4) (framed c)
                   = take 65536 c @ take (length (framed c')) (p @ framed c')"
      unfolding fr using lt lp by simp
    show ?thesis
    proof (cases "4 \<le> length (framed c')")
      case True
      have n4: "4 \<le> length c'"
      proof (rule ccontr)
        assume "\<not> 4 \<le> length c'"
        then have "framed c' = c'" by (simp add: framed_short)
        with True \<open>\<not> 4 \<le> length c'\<close> show False by simp
      qed
      from less.hyps [OF c'_len(2) c'_ne]
      obtain m' where m': "length c' - 4 \<le> m'" "m' \<le> length c'"
        "decompress_compressedData (take (length (framed c') - 4) (framed c')) = take m' c'"
        by blast
      have "take (length (framed c')) (p @ framed c')
              = p @ take (length (framed c') - 4) (framed c')"
        using True lp by simp
      then have data: "take (length (framed c) - 4) (framed c)
              = take 65536 c @ p @ take (length (framed c') - 4) (framed c')"
        using trunc by simp
      have "decompress_compressedData (take (length (framed c) - 4) (framed c))
              = take 65536 c @ take m' c'"
        unfolding data using lt lp ne m'(3)
        by (subst compressedData_step) simp_all
      also have "\<dots> = take (65536 + m') c"
        unfolding c'_def by (simp add: take_add)
      finally have "decompress_compressedData (take (length (framed c) - 4) (framed c))
              = take (65536 + m') c" .
      moreover have "length c - 4 \<le> 65536 + m'" "65536 + m' \<le> length c"
        using m'(1,2) n4 c'_len(1) long by simp_all
      ultimately show ?thesis by blast
    next
      case False
      have short: "length c' \<le> 65536"
      proof (rule ccontr)
        assume "\<not> length c' \<le> 65536"
        then have "65540 < length (framed c')" by (simp add: framed_length_long)
        with False show False by simp
      qed
      then have same: "framed c' = c'" by (simp add: framed_short)
      with False have n': "length c' < 4" by simp
      have data: "take (length (framed c) - 4) (framed c) = take 65536 c @ take (length c') p"
        using trunc same n' lp by simp
      have "decompress_compressedData (take (length (framed c) - 4) (framed c)) = take 65536 c"
        unfolding data using lt lp ne n'
        by (subst compressedData_step) (simp_all add: compressedData_Nil)
      moreover have "length c - 4 \<le> 65536" "65536 \<le> length c"
        using n' c'_len(1) long by simp_all
      ultimately show ?thesis by blast
    qed
  qed
qed

lemma framed_starts:
  "2 \<le> length c \<Longrightarrow> take 2 (framed c) = take 2 c"
  by (cases "length c \<le> 65536") (simp_all add: framed_short framed_long)

lemma framed_ends_with_sync_flush:
  "drop (length c - 4) c = sync_flush \<Longrightarrow>
   length c \<le> 65536 \<or> length c mod 65536 \<noteq> 1 \<Longrightarrow>
   drop (length (framed c) - 4) (framed c) = sync_flush"
proof (induction "length c" arbitrary: c rule: less_induct)
  case less
  have n4: "4 \<le> length c"
  proof -
    have "length (drop (length c - 4) c) = 4"
      unfolding less.prems(1) by (simp add: sync_flush_def)
    then show ?thesis by simp
  qed
  show ?case
  proof (cases "length c \<le> 65536")
    case True
    with less.prems(1) show ?thesis by (simp add: framed_short)
  next
    case False
    define c' where "c' = drop 65536 c"
    define p where "p = int32le (int (length (take 65536 c')))"
    have long: "65536 < length c" using False by simp
    have fr: "framed c = take 65536 c @ p @ framed c'"
      unfolding p_def c'_def by (rule framed_long [OF long])
    have lp: "length p = 4" by (simp add: p_def int32le_length)
    have lt: "length (take 65536 c) = 65536" using long by simp
    have c'_len: "length c' = length c - 65536" "length c' < length c" "0 < length c'"
      using long by (simp_all add: c'_def)
    have modc: "length c mod 65536 \<noteq> 1" using less.prems(2) False by simp
    have modc': "length c' mod 65536 \<noteq> 1"
    proof -
      have "length c = length c' + 65536" using c'_len(1) long by simp
      then have "length c mod 65536 = length c' mod 65536" by simp
      with modc show ?thesis by simp
    qed
    show ?thesis
    proof (cases "4 \<le> length c'")
      case True
      have "length c' - 4 + 65536 = length c - 4"
        using True c'_len(1) long by simp
      then have "drop (length c' - 4) c' = drop (length c - 4) c"
        unfolding c'_def drop_drop by simp
      then have e': "drop (length c' - 4) c' = sync_flush" using less.prems(1) by simp
      have ih: "drop (length (framed c') - 4) (framed c') = sync_flush"
        by (rule less.hyps [OF c'_len(2) e']) (use modc' in simp)
      have "length (drop (length (framed c') - 4) (framed c')) = 4"
        unfolding ih by (simp add: sync_flush_def)
      then have l4: "4 \<le> length (framed c')" by simp
      have "drop (length (framed c) - 4) (framed c) = drop (length (framed c') - 4) (framed c')"
        unfolding fr using lt lp l4 by simp
      with ih show ?thesis by simp
    next
      case False
      have one: "length c' \<noteq> 1" using modc' False by auto
      have same: "framed c' = c'" using False by (simp add: framed_short)
      have tail: "c' = drop (4 - length c') sync_flush"
      proof -
        have idx: "(4 - length c') + (length c - 4) = 65536"
          using c'_len(1) long False n4 by simp
        have "drop (4 - length c') (drop (length c - 4) c) = drop 65536 c"
          unfolding drop_drop idx ..
        then show ?thesis
          unfolding less.prems(1) c'_def by simp
      qed
      have pv: "p = [of_nat (length c'), 0, 0, 0]"
        using False by (simp add: p_def int32le_def)
      have "drop (length (framed c) - 4) (framed c) = drop (length c') p @ c'"
        unfolding fr same using lt lp False by simp
      also have "\<dots> = sync_flush"
      proof -
        from False one c'_len(3) have "length c' = 2 \<or> length c' = 3" by arith
        then show ?thesis
        proof
          assume l: "length c' = 2"
          with tail have "c' = [0xFF, 0xFF]" by (simp add: sync_flush_def)
          with l show ?thesis by (simp add: pv sync_flush_def)
        next
          assume l: "length c' = 3"
          with tail have "c' = [0x00, 0xFF, 0xFF]" by (simp add: sync_flush_def)
          with l show ?thesis by (simp add: pv sync_flush_def)
        qed
      qed
      finally show ?thesis .
    qed
  qed
qed

lemma indexOf_found:
  assumes "0 \<le> byteOffset" and "0 \<le> indexOf buf needle byteOffset"
  shows "\<exists>k. indexOf buf needle byteOffset = byteOffset + int k \<and>
             nat byteOffset + k < length buf \<and>
             occurs_here needle (drop (nat byteOffset + k) buf) \<and>
             (\<forall>j<k. \<not> occurs_here needle (drop (nat byteOffset + j) buf))"
proof -
  have eq: "indexOf buf needle byteOffset
              = search_first needle (drop (nat byteOffset) buf) byteOffset"
    using assms(1) by (simp add: indexOf_def)
  from search_first_found [OF eq [symmetric]] assms(2)
  obtain k where "k < length (drop (nat byteOffset) buf)"
    "indexOf buf needle byteOffset = byteOffset + int k"
    "occurs_here needle (drop k (drop (nat byteOffset) buf))"
    "\<forall>j<k. \<not> occurs_here needle (drop j (drop (nat byteOffset) buf))"
    by auto
  then show ?thesis
    by (intro exI [of _ k]) (simp add: add.commute)
qed

lemma indexOf_eq:
  assumes "0 \<le> byteOffset" and "nat byteOffset + k < length buf"
    and "occurs_here needle (drop (nat byteOffset + k) buf)"
    and "\<forall>j<k. \<not> occurs_here needle (drop (nat byteOffset + j) buf)"
  shows "indexOf buf needle byteOffset = byteOffset + int k"
proof -
  have "search_first needle (drop (nat byteOffset) buf) byteOffset = byteOffset + int k"
    by (rule search_first_eq) (use assms in \<open>simp_all add: add.commute\<close>)
  then show ?thesis using assms(1) by (simp add: indexOf_def)
qed

lemma lastIndexOf_found:
  assumes "0 \<le> lastIndexOf buf needle"
  shows "nat (lastIndexOf buf needle) < length buf \<and>
         occurs_here needle (drop (nat (lastIndexOf buf needle)) buf) \<and>
         (\<forall>j. nat (lastIndexOf buf needle) < j \<and> j < length buf
               \<longrightarrow> \<not> occurs_here needle (drop j buf))"
proof -
  have "search_last needle buf 0 (-1) = lastIndexOf buf needle"
    by (simp add: lastIndexOf_def)
  from search_last_found [OF this] assms
  obtain k where "k < length buf" "lastIndexOf buf needle = int k"
    "occurs_here needle (drop k buf)"
    "\<forall>j. k < j \<and> j < length buf \<longrightarrow> \<not> occurs_here needle (drop j buf)"
    by auto
  then show ?thesis by simp
qed

lemma lastIndexOf_eq:
  assumes "k < length buf" and "occurs_here needle (drop k buf)"
    and "\<forall>j. k < j \<and> j < length buf \<longrightarrow> \<not> occurs_here needle (drop j buf)"
  shows "lastIndexOf buf needle = int k"
  using search_last_eq [OF assms, of 0 "-1"] by (simp add: lastIndexOf_def)

lemma recompress_splice:
  assumes "0 \<le> indexOf savefile zlib_start (lastIndexOf savefile MOD_TITLE)"
    and "0 \<le> lastIndexOf savefile sync_flush"
  shows "recompress deflateSync savefile binfile
           = Inr (take (nat (indexOf savefile zlib_start (lastIndexOf savefile MOD_TITLE))) savefile
                  @ framed (deflateSync binfile)
                  @ drop (nat (lastIndexOf savefile sync_flush) + 4) savefile)"
proof -
  have "nat (lastIndexOf savefile sync_flush + 4) = nat (lastIndexOf savefile sync_flush) + 4"
    using assms(2) by simp
  then show ?thesis
    using assms by (simp add: recompress_def Let_def finalBuffer_framed slice_to slice_from_nat)
qed

lemma take_drop_prefix:
  assumes "q + n \<le> s" and "s \<le> length xs"
  shows "take n (drop q (take s xs @ rest)) = take n (drop q xs)"
proof -
  have "take (q + n) (take s xs) = take (q + n) xs"
    using assms(1) by (simp add: min_def)
  then have "take s xs = take (q + n) xs @ drop (q + n) (take s xs)"
    by (metis append_take_drop_id)
  then obtain R where R: "take s xs = take (q + n) xs @ R" ..
  have split: "take (q + n) xs = take q xs @ take n (drop q xs)"
    by (rule take_add)
  have lq: "length (take q xs) = q" and ln: "length (take n (drop q xs)) = n"
    using assms by simp_all
  have "drop q (take s xs @ rest) = take n (drop q xs) @ (R @ rest)"
    unfolding R split using lq by simp
  then show ?thesis using ln by simp
qed

lemma zlib_start_search_in_merged:
  assumes off: "0 \<le> byteOffset"
    and found: "indexOf savefile zlib_start byteOffset = int s"
    and starts: "take 2 F = zlib_start"
  shows "indexOf (take s savefile @ F @ tail) zlib_start byteOffset = int s"
proof -
  from indexOf_found [OF off, of savefile zlib_start] found
  obtain k where k: "int s = byteOffset + int k" "nat byteOffset + k < length savefile"
    "\<forall>j<k. \<not> occurs_here zlib_start (drop (nat byteOffset + j) savefile)"
    by auto
  have s: "s = nat byteOffset + k" using k(1) off by simp
  have s_le: "s \<le> length savefile" using k(2) s by simp
  have n2: "length zlib_start = 2" by (simp add: zlib_start_def)
  obtain rest where F: "F = 0x78 # 0x9C # rest"
    using starts by (cases F; cases "tl F") (auto simp: zlib_start_def)
  have ls: "length (take s savefile) = s" using s_le by simp
  have "indexOf (take s savefile @ F @ tail) zlib_start byteOffset = byteOffset + int k"
  proof (rule indexOf_eq [OF off])
    show "nat byteOffset + k < length (take s savefile @ F @ tail)"
      using s ls F by simp
    have "drop s (take s savefile @ F @ tail) = F @ tail" using ls by simp
    then show "occurs_here zlib_start (drop (nat byteOffset + k) (take s savefile @ F @ tail))"
      unfolding s [symmetric] by (simp add: occurs_here_def zlib_start_def F)
    show "\<forall>j<k. \<not> occurs_here zlib_start (drop (nat byteOffset + j) (take s savefile @ F @ tail))"
    proof (intro allI impI)
      fix j assume j: "j < k"
      define q where "q = nat byteOffset + j"
      have q: "q < s" using j s by (simp add: q_def)
      have orig: "take (length zlib_start) (drop q savefile) \<noteq> zlib_start"
        using k(3) [rule_format, OF j] unfolding occurs_here_def q_def .
      have "take (length zlib_start) (drop q (take s savefile @ F @ tail)) \<noteq> zlib_start"
      proof (cases "q + 2 \<le> s")
        case True
        have "take (length zlib_start) (drop q (take s savefile @ F @ tail))
                = take (length zlib_start) (drop q savefile)"
          by (rule take_drop_prefix) (use True s_le n2 in simp_all)
        with orig show ?thesis by metis
      next
        case False
        with q have qs: "s = Suc q" by simp
        have t: "take s savefile = take q savefile @ [savefile ! q]"
          using qs s_le by (simp add: take_Suc_conv_app_nth)
        have lq: "length (take q savefile) = q" using qs s_le by simp
        have "drop q (take s savefile @ F @ tail) = savefile ! q # 0x78 # 0x9C # rest @ tail"
          unfolding t F using lq by simp
        then show ?thesis by (simp add: zlib_start_def)
      qed
      then show "\<not> occurs_here zlib_start (drop (nat byteOffset + j) (take s savefile @ F @ tail))"
        unfolding occurs_here_def q_def .
    qed
  qed
  with k(1) show ?thesis by simp
qed

lemma sync_flush_search_in_merged:
  assumes found: "0 \<le> lastIndexOf savefile sync_flush"
    and e: "e = nat (lastIndexOf savefile sync_flush)"
    and ends: "drop (length F - 4) F = sync_flush"
    and s_le: "s \<le> length savefile"
  shows "lastIndexOf (take s savefile @ F @ drop (e + 4) savefile) sync_flush
           = int (s + length F - 4)"
proof -
  let ?merged = "take s savefile @ F @ drop (e + 4) savefile"
  let ?tail = "drop (e + 4) savefile"
  have "length (drop (length F - 4) F) = 4" unfolding ends by (simp add: sync_flush_def)
  then have l4: "4 \<le> length F" by simp
  have later: "\<forall>j. e < j \<and> j < length savefile \<longrightarrow> \<not> occurs_here sync_flush (drop j savefile)"
    using lastIndexOf_found [OF found] e by simp
  have Fsplit: "F = take (length F - 4) F @ sync_flush"
    using ends by (metis append_take_drop_id)
  have ls: "length (take s savefile) = s" using s_le by simp
  show ?thesis
  proof (rule lastIndexOf_eq)
    show "s + length F - 4 < length ?merged" using l4 ls by simp
    have "drop (s + length F - 4) ?merged = drop (length F - 4) F @ ?tail"
      using l4 ls by simp
    then show "occurs_here sync_flush (drop (s + length F - 4) ?merged)"
      unfolding ends by (simp add: occurs_here_def sync_flush_def)
    show "\<forall>j. s + length F - 4 < j \<and> j < length ?merged
            \<longrightarrow> \<not> occurs_here sync_flush (drop j ?merged)"
    proof (intro allI impI)
      fix j assume j: "s + length F - 4 < j \<and> j < length ?merged"
      show "\<not> occurs_here sync_flush (drop j ?merged)"
      proof (cases "j < s + length F")
        case True
        define d where "d = j - (s + length F - 4)"
        have d: "d = 1 \<or> d = 2 \<or> d = 3" using True j l4 unfolding d_def by arith
        have jd: "j = s + ((length F - 4) + d)" using j l4 unfolding d_def by arith
        have "drop j ?merged = drop ((length F - 4) + d) F @ ?tail"
          unfolding jd using ls True d l4 by auto
        also have "drop ((length F - 4) + d) F = drop d sync_flush"
          using ends by (metis drop_drop add.commute)
        finally have "drop j ?merged = drop d sync_flush @ ?tail" .
        with d show ?thesis
          by (auto simp: occurs_here_def sync_flush_def)
      next
        case False
        define t where "t = j - (s + length F)"
        have jt: "j = s + (length F + t)" using False unfolding t_def by simp
        have "t < length savefile - (e + 4)" using j ls unfolding jt by simp
        then have tl: "e + 4 + t < length savefile" by arith
        have "drop j ?merged = drop (e + 4 + t) savefile"
          unfolding jt using ls by (simp add: add.commute)
        moreover have "\<not> occurs_here sync_flush (drop (e + 4 + t) savefile)"
          using later tl by simp
        ultimately show ?thesis by simp
      qed
    qed
  qed
qed

text \<open>
  C1, as the code has it. Let the three searches succeed on the container, and let the
  new container be searched from the same anchor (neither the framed stream nor the part
  of the container kept after it brings a later \<open>MOD_TITLE\<close>). Let the compressed
  stream start with \<open>78 9C\<close> and end with the sync-flush marker \<open>00 00 FF FF\<close>, let
  its last 64 KiB chunk not consist of one byte only (else the length field written before
  that chunk splits the marker), and let the inflater return the blob for the compressed
  stream with up to 4 of its last bytes cut off (\<open>decompress\<close> leaves the marker out of
  the span it slices). Then \<open>decompress\<close> of the new container returns the blob.
\<close>

theorem payload_round_trip:
  assumes anchor: "0 \<le> lastIndexOf savefile MOD_TITLE"
    and start: "0 \<le> indexOf savefile zlib_start (lastIndexOf savefile MOD_TITLE)"
    and end_marker: "0 \<le> lastIndexOf savefile sync_flush"
    and merged: "recompress deflateSync savefile binfile = Inr merged"
    and same_anchor: "lastIndexOf merged MOD_TITLE = lastIndexOf savefile MOD_TITLE"
    and header: "take 2 (deflateSync binfile) = zlib_start"
    and trailer: "drop (length (deflateSync binfile) - 4) (deflateSync binfile) = sync_flush"
    and last_chunk: "length (deflateSync binfile) \<le> 65536
                     \<or> length (deflateSync binfile) mod 65536 \<noteq> 1"
    and tolerant: "\<forall>m. length (deflateSync binfile) - 4 \<le> m \<and> m \<le> length (deflateSync binfile)
                       \<longrightarrow> inflateSync (take m (deflateSync binfile)) = Inr binfile"
  shows "decompress inflateSync merged = Inr binfile"
proof -
  define comp where "comp = deflateSync binfile"
  define F where "F = framed comp"
  define s where "s = nat (indexOf savefile zlib_start (lastIndexOf savefile MOD_TITLE))"
  define e where "e = nat (lastIndexOf savefile sync_flush)"
  have s_int: "indexOf savefile zlib_start (lastIndexOf savefile MOD_TITLE) = int s"
    using start by (simp add: s_def)
  have s_le: "s \<le> length savefile"
    using indexOf_bounds [of savefile zlib_start "lastIndexOf savefile MOD_TITLE"] s_int
    by linarith
  have m_eq: "merged = take s savefile @ F @ drop (e + 4) savefile"
    using merged recompress_splice [OF start end_marker, of deflateSync binfile]
    by (simp add: s_def e_def F_def comp_def)
  have "length (drop (length comp - 4) comp) = 4"
    using trailer by (simp add: comp_def sync_flush_def)
  then have c4: "4 \<le> length comp" by simp
  then have comp_ne: "comp \<noteq> []" by auto
  have F_starts: "take 2 F = zlib_start"
    using framed_starts [of comp] c4 header by (simp add: F_def comp_def)
  have F_ends: "drop (length F - 4) F = sync_flush"
    unfolding F_def
    by (rule framed_ends_with_sync_flush) (use trailer last_chunk in \<open>simp_all add: comp_def\<close>)
  have "length (drop (length F - 4) F) = 4" unfolding F_ends by (simp add: sync_flush_def)
  then have F4: "4 \<le> length F" by simp
  have st: "indexOf merged zlib_start (lastIndexOf merged MOD_TITLE) = int s"
    unfolding same_anchor unfolding m_eq
    by (rule zlib_start_search_in_merged [OF anchor s_int F_starts])
  have en: "lastIndexOf merged sync_flush = int (s + length F - 4)"
    unfolding m_eq
    by (rule sync_flush_search_in_merged [OF end_marker e_def F_ends s_le])
  have ls: "length (take s savefile) = s" using s_le by simp
  have "slice merged (int s) (int (s + length F - 4)) = take (length F - 4) (drop s merged)"
    using slice_nat [of merged s "s + length F - 4"] F4 by simp
  also have "drop s merged = F @ drop (e + 4) savefile"
    unfolding m_eq using ls by simp
  also have "take (length F - 4) (F @ drop (e + 4) savefile) = take (length F - 4) F"
    by simp
  finally have data: "slice merged (int s) (int (s + length F - 4)) = take (length F - 4) F" .
  from unframe_truncated [OF comp_ne]
  obtain m where m: "length comp - 4 \<le> m" "m \<le> length comp"
    "decompress_compressedData (take (length F - 4) F) = take m comp"
    unfolding F_def by blast
  have "decompress inflateSync merged = inflateSync (take m comp)"
    by (simp add: decompress_def Let_def st en data m(3))
  also have "\<dots> = Inr binfile"
    using tolerant m(1,2) by (simp add: comp_def)
  finally show ?thesis .
qed

lemma inflate_stored_blocks_Nil: "inflate_stored_blocks [] = Inr []"
  by (simp add: inflate_stored_blocks.simps)

lemma inflate_stored_blocks_cut:
  "length rest < 4 \<Longrightarrow> inflate_stored_blocks (0 # rest) = Inr []"
  by (subst inflate_stored_blocks.simps) simp

lemma drop_4_plus: "drop (4 + n) (a # b # c # d # xs) = drop n xs"
proof -
  have "drop (4 + n) (a # b # c # d # xs) = drop n (drop 4 (a # b # c # d # xs))"
    by (simp only: drop_drop add.commute)
  then show ?thesis by simp
qed

lemma inflate_stored_blocks_block:
  "inflate_stored_blocks (0 # l0 # l1 # n0 # n1 # rest) =
     (if unat l0 + 256 * unat l1 + (unat n0 + 256 * unat n1) \<noteq> 65535 then Inl ZlibError
      else bindE (inflate_stored_blocks (drop (unat l0 + 256 * unat l1) rest))
             (\<lambda>more. Inr (take (unat l0 + 256 * unat l1) rest @ more)))"
  by (subst inflate_stored_blocks.simps) (simp add: Let_def drop_4_plus)

lemma inflateSync_stored_header:
  "inflateSync_stored (0x78 # 0x9C # rest) = inflate_stored_blocks rest"
  by (simp add: inflateSync_stored_def)

lemma inflateSync_stored_Nil: "inflateSync_stored [] = Inr []"
  by (simp add: inflateSync_stored_def)

lemma inflateSync_stored_cut_marker:
  assumes "11 \<le> m" and "m \<le> 15"
  shows "inflateSync_stored
           (take m [0x78, 0x9C, 0x00, 0x03, 0x00, 0xFC, 0xFF, 1, 2, 3, 0x00, 0x00, 0x00, 0xFF, 0xFF])
         = Inr [1, 2, 3]"
proof -
  from assms have "m = 11 \<or> m = 12 \<or> m = 13 \<or> m = 14 \<or> m = 15" by arith
  then show ?thesis
    by (elim disjE)
       (simp_all add: inflateSync_stored_header inflate_stored_blocks_block
          inflate_stored_blocks_cut inflate_stored_blocks_Nil)
qed

lemma sample_recompress_123:
  "recompress deflateSync_stored sample_container [1, 2, 3]
     = Inr ([1, 2] @ MOD_TITLE @ [3]
            @ [0x78, 0x9C, 0x00, 0x03, 0x00, 0xFC, 0xFF, 1, 2, 3, 0x00, 0x00, 0x00, 0xFF, 0xFF]
            @ [7, 8, 9])"
  by (simp add: recompress_splice sample_lastIndexOf_MOD_TITLE sample_indexOf_zlib_start
        sample_lastIndexOf_sync_flush sample_take sample_drop framed_short
        deflateSync_stored_123)

lemma sample_merged_anchor:
  "lastIndexOf ([1, 2] @ MOD_TITLE @ [3]
            @ [0x78, 0x9C, 0x00, 0x03, 0x00, 0xFC, 0xFF, 1, 2, 3, 0x00, 0x00, 0x00, 0xFF, 0xFF]
            @ [7, 8, 9]) MOD_TITLE = 2"
  by code_simp

text \<open>
  The theorem at the sample container and the blob \<open>01 02 03\<close>, with the reference
  codec.
\<close>

theorem payload_round_trip_witness:
  "recompress deflateSync_stored sample_container [1, 2, 3]
     = Inr ([1, 2] @ MOD_TITLE @ [3]
            @ [0x78, 0x9C, 0x00, 0x03, 0x00, 0xFC, 0xFF, 1, 2, 3, 0x00, 0x00, 0x00, 0xFF, 0xFF]
            @ [7, 8, 9]) \<and>
   decompress inflateSync_stored
     ([1, 2] @ MOD_TITLE @ [3]
      @ [0x78, 0x9C, 0x00, 0x03, 0x00, 0xFC, 0xFF, 1, 2, 3, 0x00, 0x00, 0x00, 0xFF, 0xFF]
      @ [7, 8, 9]) = Inr [1, 2, 3]"
proof -
  have "decompress inflateSync_stored
     ([1, 2] @ MOD_TITLE @ [3]
      @ [0x78, 0x9C, 0x00, 0x03, 0x00, 0xFC, 0xFF, 1, 2, 3, 0x00, 0x00, 0x00, 0xFF, 0xFF]
      @ [7, 8, 9]) = Inr [1, 2, 3]"
  proof (rule payload_round_trip [where savefile = sample_container
                                    and deflateSync = deflateSync_stored])
    show "0 \<le> lastIndexOf sample_container MOD_TITLE"
      by (simp add: sample_lastIndexOf_MOD_TITLE)
    show "0 \<le> indexOf sample_container zlib_start (lastIndexOf sample_container MOD_TITLE)"
      by (simp add: sample_lastIndexOf_MOD_TITLE sample_indexOf_zlib_start)
    show "0 \<le> lastIndexOf sample_container sync_flush"
      by (simp add: sample_lastIndexOf_sync_flush)
    show "recompress deflateSync_stored sample_container [1, 2, 3]
     = Inr ([1, 2] @ MOD_TITLE @ [3]
            @ [0x78, 0x9C, 0x00, 0x03, 0x00, 0xFC, 0xFF, 1, 2, 3, 0x00, 0x00, 0x00, 0xFF, 0xFF]
            @ [7, 8, 9])"
      by (rule sample_recompress_123)
    show "lastIndexOf ([1, 2] @ MOD_TITLE @ [3]
            @ [0x78, 0x9C, 0x00, 0x03, 0x00, 0xFC, 0xFF, 1, 2, 3, 0x00, 0x00, 0x00, 0xFF, 0xFF]
            @ [7, 8, 9]) MOD_TITLE = lastIndexOf sample_container MOD_TITLE"
      by (simp only: sample_merged_anchor sample_lastIndexOf_MOD_TITLE)
    show "take 2 (deflateSync_stored [1, 2, 3]) = zlib_start"
      by (simp add: deflateSync_stored_123 zlib_start_def)
    show "drop (length (deflateSync_stored [1, 2, 3]) - 4) (deflateSync_stored [1, 2, 3]) = sync_flush"
      by (simp add: deflateSync_stored_123 sync_flush_def)
    show "length (deflateSync_stored [1, 2, 3]) \<le> 65536
            \<or> length (deflateSync_stored [1, 2, 3]) mod 65536 \<noteq> 1"
      by (simp add: deflateSync_stored_123)
    show "\<forall>m. length (deflateSync_stored [1, 2, 3]) - 4 \<le> m
                \<and> m \<le> length (deflateSync_stored [1, 2, 3])
              \<longrightarrow> inflateSync_stored (take m (deflateSync_stored [1, 2, 3])) = Inr [1, 2, 3]"
      unfolding deflateSync_stored_123 using inflateSync_stored_cut_marker by simp
  qed
  with sample_recompress_123 show ?thesis by blast
qed

lemma deflateSync_stored_MOD_TITLE:
  "deflateSync_stored MOD_TITLE
     = [0x78, 0x9C, 0x00, 0x09, 0x00, 0xF6, 0xFF] @ MOD_TITLE @ [0x00, 0x00, 0x00, 0xFF, 0xFF]"
  by (simp add: deflateSync_stored_def stored_blocks_short MOD_TITLE_def)

lemma anchor_in_stream_searches:
  "lastIndexOf ([1, 2] @ MOD_TITLE @ [3]
      @ [0x78, 0x9C, 0x00, 0x09, 0x00, 0xF6, 0xFF] @ MOD_TITLE @ [0x00, 0x00, 0x00, 0xFF, 0xFF]
      @ [7, 8, 9]) MOD_TITLE = 19 \<and>
   indexOf ([1, 2] @ MOD_TITLE @ [3]
      @ [0x78, 0x9C, 0x00, 0x09, 0x00, 0xF6, 0xFF] @ MOD_TITLE @ [0x00, 0x00, 0x00, 0xFF, 0xFF]
      @ [7, 8, 9]) zlib_start 19 = -1 \<and>
   lastIndexOf ([1, 2] @ MOD_TITLE @ [3]
      @ [0x78, 0x9C, 0x00, 0x09, 0x00, 0xF6, 0xFF] @ MOD_TITLE @ [0x00, 0x00, 0x00, 0xFF, 0xFF]
      @ [7, 8, 9]) sync_flush = 29 \<and>
   slice ([1, 2] @ MOD_TITLE @ [3]
      @ [0x78, 0x9C, 0x00, 0x09, 0x00, 0xF6, 0xFF] @ MOD_TITLE @ [0x00, 0x00, 0x00, 0xFF, 0xFF]
      @ [7, 8, 9]) (-1) 29 = []"
  by code_simp

lemma anchor_after_end_searches:
  "lastIndexOf container_anchor_after_end MOD_TITLE = 4 \<and>
   indexOf container_anchor_after_end zlib_start 4 = 13 \<and>
   lastIndexOf container_anchor_after_end sync_flush = 0 \<and>
   take 13 container_anchor_after_end = sync_flush @ MOD_TITLE \<and>
   drop 4 container_anchor_after_end = MOD_TITLE @ zlib_start \<and>
   lastIndexOf (sync_flush @ MOD_TITLE
      @ [0x78, 0x9C, 0x00, 0x03, 0x00, 0xFC, 0xFF, 1, 2, 3, 0x00, 0x00, 0x00, 0xFF, 0xFF]
      @ MOD_TITLE @ zlib_start) MOD_TITLE = 28 \<and>
   indexOf (sync_flush @ MOD_TITLE
      @ [0x78, 0x9C, 0x00, 0x03, 0x00, 0xFC, 0xFF, 1, 2, 3, 0x00, 0x00, 0x00, 0xFF, 0xFF]
      @ MOD_TITLE @ zlib_start) zlib_start 28 = 37 \<and>
   lastIndexOf (sync_flush @ MOD_TITLE
      @ [0x78, 0x9C, 0x00, 0x03, 0x00, 0xFC, 0xFF, 1, 2, 3, 0x00, 0x00, 0x00, 0xFF, 0xFF]
      @ MOD_TITLE @ zlib_start) sync_flush = 24 \<and>
   slice (sync_flush @ MOD_TITLE
      @ [0x78, 0x9C, 0x00, 0x03, 0x00, 0xFC, 0xFF, 1, 2, 3, 0x00, 0x00, 0x00, 0xFF, 0xFF]
      @ MOD_TITLE @ zlib_start) 37 24 = []"
  by code_simp

text \<open>
  C1, as the claim states it, fails. In both cases below all three searches succeed on the
  container and the reference codec alone restores the blob, yet \<open>decompress\<close> of the
  new container returns the empty blob. First case: the blob is the text \<open>MOD_TITLE\<close>,
  which a stored block carries literally, so that the anchor search on the new container
  ends inside the compressed stream. Second case: the last \<open>MOD_TITLE\<close> of the
  container comes after its last sync-flush marker, so that the part kept after the new
  stream holds the anchor and the zlib start, behind the end marker.
\<close>

theorem round_trip_fails_on_later_anchor:
  "0 \<le> lastIndexOf sample_container MOD_TITLE \<and>
   0 \<le> indexOf sample_container zlib_start (lastIndexOf sample_container MOD_TITLE) \<and>
   0 \<le> lastIndexOf sample_container sync_flush \<and>
   inflateSync_stored (deflateSync_stored MOD_TITLE) = Inr MOD_TITLE \<and>
   bindE (recompress deflateSync_stored sample_container MOD_TITLE)
     (decompress inflateSync_stored) = Inr [] \<and>
   MOD_TITLE \<noteq> [] \<and>
   0 \<le> lastIndexOf container_anchor_after_end MOD_TITLE \<and>
   0 \<le> indexOf container_anchor_after_end zlib_start
          (lastIndexOf container_anchor_after_end MOD_TITLE) \<and>
   0 \<le> lastIndexOf container_anchor_after_end sync_flush \<and>
   inflateSync_stored (deflateSync_stored [1, 2, 3]) = Inr [1, 2, 3] \<and>
   bindE (recompress deflateSync_stored container_anchor_after_end [1, 2, 3])
     (decompress inflateSync_stored) = Inr []"
proof -
  have a: "inflateSync_stored (deflateSync_stored MOD_TITLE) = Inr MOD_TITLE"
    unfolding deflateSync_stored_MOD_TITLE
    by (simp add: MOD_TITLE_def inflateSync_stored_header inflate_stored_blocks_block
          inflate_stored_blocks_Nil)
  have lm: "length MOD_TITLE = 9" by (simp add: MOD_TITLE_def)
  have b: "recompress deflateSync_stored sample_container MOD_TITLE
      = Inr ([1, 2] @ MOD_TITLE @ [3]
      @ [0x78, 0x9C, 0x00, 0x09, 0x00, 0xF6, 0xFF] @ MOD_TITLE @ [0x00, 0x00, 0x00, 0xFF, 0xFF]
      @ [7, 8, 9])"
    by (simp add: recompress_splice sample_lastIndexOf_MOD_TITLE sample_indexOf_zlib_start
        sample_lastIndexOf_sync_flush sample_take sample_drop framed_short
        deflateSync_stored_MOD_TITLE lm)
  have c: "decompress inflateSync_stored ([1, 2] @ MOD_TITLE @ [3]
      @ [0x78, 0x9C, 0x00, 0x09, 0x00, 0xF6, 0xFF] @ MOD_TITLE @ [0x00, 0x00, 0x00, 0xFF, 0xFF]
      @ [7, 8, 9]) = Inr []"
    using anchor_in_stream_searches
    by (simp add: decompress_def Let_def compressedData_Nil inflateSync_stored_Nil)
  have d: "inflateSync_stored (deflateSync_stored [1, 2, 3]) = Inr [1, 2, 3]"
    using inflateSync_stored_cut_marker [of 15] by (simp add: deflateSync_stored_123)
  have e: "recompress deflateSync_stored container_anchor_after_end [1, 2, 3]
      = Inr (sync_flush @ MOD_TITLE
      @ [0x78, 0x9C, 0x00, 0x03, 0x00, 0xFC, 0xFF, 1, 2, 3, 0x00, 0x00, 0x00, 0xFF, 0xFF]
      @ MOD_TITLE @ zlib_start)"
    using anchor_after_end_searches
    by (simp add: recompress_splice framed_short deflateSync_stored_123)
  have f: "decompress inflateSync_stored (sync_flush @ MOD_TITLE
      @ [0x78, 0x9C, 0x00, 0x03, 0x00, 0xFC, 0xFF, 1, 2, 3, 0x00, 0x00, 0x00, 0xFF, 0xFF]
      @ MOD_TITLE @ zlib_start) = Inr []"
    using anchor_after_end_searches
    by (simp add: decompress_def Let_def compressedData_Nil inflateSync_stored_Nil)
  have bc: "bindE (recompress deflateSync_stored sample_container MOD_TITLE)
               (decompress inflateSync_stored) = Inr []"
    unfolding b using c by simp
  have ef: "bindE (recompress deflateSync_stored container_anchor_after_end [1, 2, 3])
               (decompress inflateSync_stored) = Inr []"
    unfolding e using f by simp
  have g: "MOD_TITLE \<noteq> []" by (simp add: MOD_TITLE_def)
  have s1: "0 \<le> lastIndexOf sample_container MOD_TITLE"
    and s2: "0 \<le> indexOf sample_container zlib_start (lastIndexOf sample_container MOD_TITLE)"
    and s3: "0 \<le> lastIndexOf sample_container sync_flush"
    by (simp_all add: sample_lastIndexOf_MOD_TITLE sample_indexOf_zlib_start
          sample_lastIndexOf_sync_flush)
  have t1: "0 \<le> lastIndexOf container_anchor_after_end MOD_TITLE"
    and t2: "0 \<le> indexOf container_anchor_after_end zlib_start
                  (lastIndexOf container_anchor_after_end MOD_TITLE)"
    and t3: "0 \<le> lastIndexOf container_anchor_after_end sync_flush"
    using anchor_after_end_searches by simp_all
  from s1 s2 s3 a bc g t1 t2 t3 d ef show ?thesis by blast
qed

text \<open>
  Why the round trip needs the condition on the last chunk: when the compressed stream is
  one byte longer than 64 KiB, the length field of the second chunk is written between the
  third and the fourth byte of the trailing sync-flush marker, and the framed stream ends
  with \<open>00 00 00 FF\<close> instead.
\<close>

lemma framed_splits_marker:
  assumes "length c = 65537" and "drop 65533 c = sync_flush"
  shows "framed c = take 65536 c @ [1, 0, 0, 0] @ [0xFF] \<and>
         drop (length (framed c) - 4) (framed c) = [0, 0, 0, 0xFF]"
proof -
  have "drop 3 (drop 65533 c) = drop 65536 c" by simp
  then have last: "drop 65536 c = [0xFF]"
    unfolding assms(2) by (simp add: sync_flush_def)
  have fr: "framed c = take 65536 c @ [1, 0, 0, 0] @ [0xFF]"
    using assms(1) framed_long [of c]
    by (simp add: last framed_short int32le_def del: length_drop)
  have "length (take 65536 c) = 65536" using assms(1) by simp
  then show ?thesis unfolding fr by simp
qed

end
